theory Spec2Isabelle
  imports Complex_Main "HOL-Library.Word"
begin

section \<open>Mp4Frag: the incremental fMP4 box parser of src/index.js\<close>

text \<open>
  The class \<open>Mp4Frag\<close> is a stream transform. Its member slots become the fields of the
  record \<open>mp4frag\<close> (a slot that \<open>delete\<close> removes or that was never assigned is
  \<open>None\<close>), every private method becomes a function from the instance to an optional
  thrown error and the instance as the throw (or the return) leaves it, and what the
  instance sends to the outside (\<open>emit\<close>, \<open>push\<close>, the callback) is appended to the
  trace \<open>this_trace\<close>.
\<close>

subsection \<open>Buffers\<close>

type_synonym byte = "8 word"
type_synonym buffer = "byte list"

text \<open>The four-character codes the source compares against or searches for.\<close>

definition ftyp_tag :: buffer where "ftyp_tag = [0x66, 0x74, 0x79, 0x70]"
definition moov_tag :: buffer where "moov_tag = [0x6D, 0x6F, 0x6F, 0x76]"
definition moof_tag :: buffer where "moof_tag = [0x6D, 0x6F, 0x6F, 0x66]"
definition mdat_tag :: buffer where "mdat_tag = [0x6D, 0x64, 0x61, 0x74]"
definition avcC_tag :: buffer where "avcC_tag = [0x61, 0x76, 0x63, 0x43]"
definition mp4a_tag :: buffer where "mp4a_tag = [0x6D, 0x70, 0x34, 0x61]"

text \<open>\<open>buf.slice(a)\<close> and \<open>buf.slice(a, b)\<close> for non-negative \<open>a \<le> b\<close>.\<close>

definition slice_from :: "buffer \<Rightarrow> nat \<Rightarrow> buffer" where
  "slice_from buf a = drop a buf"

definition slice_range :: "buffer \<Rightarrow> nat \<Rightarrow> nat \<Rightarrow> buffer" where
  "slice_range buf a b = take (b - a) (drop a buf)"

text \<open>
  \<open>buf.readUInt32BE(0, true)\<close>. Every call but one is guarded by \<open>chunkLength < 8\<close>;
  the unguarded one (the fall-through of \<open>_findMoof\<close>) can read a chunk shorter than four
  bytes, where current Node throws a RangeError: \<open>None\<close>.
\<close>

definition readUInt32BE :: "buffer \<Rightarrow> nat option" where
  "readUInt32BE buf =
     (if length buf < 4 then None
      else Some (unat (buf ! 0) * 16777216 + unat (buf ! 1) * 65536
                 + unat (buf ! 2) * 256 + unat (buf ! 3)))"

text \<open>\<open>buf.indexOf(tag)\<close>: the first offset at which \<open>tag\<close> occurs, \<open>None\<close> for \<open>-1\<close>.\<close>

fun indexOf :: "buffer \<Rightarrow> buffer \<Rightarrow> nat option" where
  "indexOf [] tag = (if tag = [] then Some 0 else None)"
| "indexOf (b # bs) tag =
     (if take (length tag) (b # bs) = tag then Some 0
      else map_option Suc (indexOf bs tag))"

text \<open>
  \<open>Buffer.concat(list, totalLength)\<close>: the concatenation cut at \<open>totalLength\<close>, and
  filled with zero bytes when it is shorter.
\<close>

definition buffer_concat :: "buffer list \<Rightarrow> nat \<Rightarrow> buffer" where
  "buffer_concat bufs totalLength =
     take totalLength (concat bufs) @ replicate (totalLength - length (concat bufs)) 0"

text \<open>The header test every \<open>_find*\<close> method starts with, as the source writes it.\<close>

definition bad_header :: "buffer \<Rightarrow> buffer \<Rightarrow> bool" where
  "bad_header chunk tag \<longleftrightarrow>
     length chunk < 8 \<or> chunk ! 4 \<noteq> tag ! 0 \<or> chunk ! 5 \<noteq> tag ! 1
     \<or> chunk ! 6 \<noteq> tag ! 2 \<or> chunk ! 7 \<noteq> tag ! 3"

subsection \<open>Numbers and strings\<close>

text \<open>
  A JavaScript number that the source computes from clock readings: a rational, or NaN
  (arithmetic on \<open>undefined\<close>).
\<close>

datatype jsnum = NaN | Num rat

text \<open>\<open>String(n)\<close> for a non-negative integer.\<close>

definition digit_char :: "nat \<Rightarrow> char" where
  "digit_char d = ''0123456789'' ! d"

fun number_string :: "nat \<Rightarrow> string" where
  "number_string n =
     (let d = digit_char (n mod 10)
      in if n div 10 = 0 then [d] else number_string (n div 10) @ [d])"

declare number_string.simps [simp del]

definition int_string :: "int \<Rightarrow> string" where
  "int_string i = (if i < 0 then CHR ''-'' # number_string (nat (- i)) else number_string (nat i))"

text \<open>\<open>Math.round\<close>: the nearest integer, a tie going up.\<close>

definition math_round :: "rat \<Rightarrow> int" where
  "math_round r = \<lfloor>r + 1 / 2\<rfloor>"

text \<open>\<open>x.toFixed(6)\<close>: six decimals, the nearest value, a tie going away from zero.\<close>

definition pad6 :: "string \<Rightarrow> string" where
  "pad6 s = replicate (6 - length s) (CHR ''0'') @ s"

definition toFixed6_abs :: "rat \<Rightarrow> string" where
  "toFixed6_abs r =
     (let n = nat \<lfloor>r * 1000000 + 1 / 2\<rfloor>
      in number_string (n div 1000000) @ ''.'' @ pad6 (number_string (n mod 1000000)))"

fun toFixed6 :: "jsnum \<Rightarrow> string" where
  "toFixed6 NaN = ''NaN''"
| "toFixed6 (Num r) = (if r < 0 then ''-'' @ toFixed6_abs (- r) else toFixed6_abs r)"

fun round_string :: "jsnum \<Rightarrow> string" where
  "round_string NaN = ''NaN''"
| "round_string (Num r) = int_string (math_round r)"

text \<open>\<open>buf.toString('hex').toUpperCase()\<close>.\<close>

definition hex_digit :: "nat \<Rightarrow> char" where
  "hex_digit d = ''0123456789ABCDEF'' ! d"

definition hex_upper :: "buffer \<Rightarrow> string" where
  "hex_upper buf = concat (map (\<lambda>b. [hex_digit (unat b div 16), hex_digit (unat b mod 16)]) buf)"

subsection \<open>The instance\<close>

text \<open>\<open>_parseChunk\<close> holds one of five methods.\<close>

datatype parser = FindFtyp | FindMoov | FindMoof | FindMdat | MoofHunt

text \<open>The object literal pushed on \<open>_hlsList\<close>.\<close>

record hls_entry =
  sequence :: string
  segment :: buffer
  duration :: jsnum

text \<open>What leaves the instance: \<open>emit\<close>, \<open>push\<close> and the callback.\<close>

datatype event =
    Initialized
  | SegmentEvent buffer
  | Pushed buffer
  | CallbackCall buffer

text \<open>Every \<open>throw\<close> of the source, and the errors of the runtime it can run into.\<close>

datatype error =
    CannotFindFtyp
  | FtypLengthGreater
  | CannotFindMoov
  | MoovLengthGreater
  | NoCodecInformation
  | ImmediatelyFailedMoof
  | MoofLengthGreater
  | CannotFindMdat
  | MdatLengthLess
  | RangeError
  | TypeError

text \<open>
  The slots of the instance. \<open>has_callback\<close>, \<open>pipesCount\<close> and \<open>segmentListeners\<close>
  are what \<open>_setSegment\<close> reads of the stream's surroundings; \<open>clock_reads\<close> counts the
  calls of \<open>Date.now()\<close>, whose results come from a clock passed to every method.
\<close>

record mp4frag =
  this_parseChunk :: parser
  has_callback :: bool
  pipesCount :: nat
  segmentListeners :: nat
  this_hlsListSize :: nat
  this_hlsList :: "hls_entry list option"
  this_hlsBase :: "string option"
  this_sequence :: "nat option"
  this_bufferListSize :: nat
  this_bufferList :: "buffer list option"
  this_mime :: "string option"
  this_initialization :: "buffer option"
  this_segment :: "buffer option"
  this_timestamp :: "int option"
  this_duration :: "jsnum option"
  this_m3u8 :: "string option"
  this_ftyp :: "buffer option"
  this_ftypLength :: "nat option"
  this_moof :: "buffer option"
  this_moofLength :: "nat option"
  this_mdatBuffer :: "buffer list option"
  this_mdatLength :: "nat option"
  this_mdatBufferSize :: "nat option"
  clock_reads :: nat
  this_trace :: "event list"

type_synonym clock = "nat \<Rightarrow> int"
type_synonym outcome = "error option \<times> mp4frag"

subsection \<open>Construction\<close>

text \<open>
  The options object: \<open>hlsBase\<close> is \<open>None\<close> when the property is absent or falsy;
  \<open>hlsListSize\<close> is the result of \<open>parseInt\<close> (\<open>None\<close> for NaN); \<open>bufferListSize\<close> is
  \<open>None\<close> when the object has no such property, else the result of \<open>parseInt\<close>.
\<close>

record options =
  hlsBase :: "string option"
  hlsListSize :: "int option"
  bufferListSize :: "int option option"

definition fresh :: "bool \<Rightarrow> nat \<Rightarrow> nat \<Rightarrow> mp4frag" where
  "fresh cb pipes listeners =
     \<lparr> this_parseChunk = FindFtyp, has_callback = cb, pipesCount = pipes,
       segmentListeners = listeners,
       this_hlsListSize = 0, this_hlsList = None, this_hlsBase = None, this_sequence = None,
       this_bufferListSize = 0, this_bufferList = None,
       this_mime = None, this_initialization = None, this_segment = None,
       this_timestamp = None, this_duration = None, this_m3u8 = None,
       this_ftyp = None, this_ftypLength = None, this_moof = None, this_moofLength = None,
       this_mdatBuffer = None, this_mdatLength = None, this_mdatBufferSize = None,
       clock_reads = 0, this_trace = [] \<rparr>"

definition clamp_hlsListSize :: "int option \<Rightarrow> nat" where
  "clamp_hlsListSize p =
     (case p of None \<Rightarrow> 4
      | Some n \<Rightarrow> if n < 2 then 2 else if n > 10 then 10 else nat n)"

definition clamp_bufferListSize :: "int option \<Rightarrow> nat" where
  "clamp_bufferListSize p =
     (case p of None \<Rightarrow> 2
      | Some n \<Rightarrow> if n < 2 then 2 else if n > 10 then 10 else nat n)"

definition constructor :: "options option \<Rightarrow> bool \<Rightarrow> nat \<Rightarrow> nat \<Rightarrow> mp4frag" where
  "constructor opts cb pipes listeners =
     (let s = fresh cb pipes listeners in
      case opts of None \<Rightarrow> s
      | Some opt \<Rightarrow>
          let s1 = (case hlsBase opt of
                      Some base \<Rightarrow>
                        if base \<noteq> [] then
                          s\<lparr> this_hlsListSize := clamp_hlsListSize (hlsListSize opt),
                             this_hlsList := Some [], this_hlsBase := Some base,
                             this_sequence := Some 0 \<rparr>
                        else s
                    | None \<Rightarrow> s)
          in (case bufferListSize opt of
                Some p \<Rightarrow> s1\<lparr> this_bufferListSize := clamp_bufferListSize p,
                               this_bufferList := Some [] \<rparr>
              | None \<Rightarrow> s1))"

subsection \<open>Accessors\<close>

definition get_mime :: "mp4frag \<Rightarrow> string option" where
  "get_mime s = this_mime s"

definition get_initialization :: "mp4frag \<Rightarrow> buffer option" where
  "get_initialization s = this_initialization s"

definition get_segment :: "mp4frag \<Rightarrow> buffer option" where
  "get_segment s = this_segment s"

text \<open>\<open>this._timestamp || -1\<close>: a zero is falsy.\<close>

definition get_timestamp :: "mp4frag \<Rightarrow> int" where
  "get_timestamp s = (case this_timestamp s of None \<Rightarrow> - 1 | Some t \<Rightarrow> if t = 0 then - 1 else t)"

text \<open>\<open>this._duration || -1\<close>: \<open>undefined\<close>, NaN and zero are falsy.\<close>

definition get_duration :: "mp4frag \<Rightarrow> rat" where
  "get_duration s =
     (case this_duration s of None \<Rightarrow> - 1 | Some NaN \<Rightarrow> - 1
      | Some (Num d) \<Rightarrow> if d = 0 then - 1 else d)"

definition get_m3u8 :: "mp4frag \<Rightarrow> string option" where
  "get_m3u8 s = (case this_m3u8 s of None \<Rightarrow> None | Some m \<Rightarrow> if m = [] then None else Some m)"

text \<open>\<open>this._sequence || -1\<close>: \<open>undefined\<close> and zero are falsy.\<close>

definition get_sequence :: "mp4frag \<Rightarrow> int" where
  "get_sequence s =
     (case this_sequence s of None \<Rightarrow> - 1 | Some n \<Rightarrow> if n = 0 then - 1 else int n)"

definition get_bufferList :: "mp4frag \<Rightarrow> buffer list option" where
  "get_bufferList s =
     (case this_bufferList s of None \<Rightarrow> None | Some l \<Rightarrow> if length l > 0 then Some l else None)"

text \<open>
  The argument of \<open>getHlsSegment\<close> is any value; the ring holds strings, and \<open>===\<close>
  equals a string to a string only.
\<close>

datatype jsvalue = JString string | JNumber int | JUndefined

fun truthy :: "jsvalue \<Rightarrow> bool" where
  "truthy (JString s) = (s \<noteq> [])"
| "truthy (JNumber n) = (n \<noteq> 0)"
| "truthy JUndefined = False"

fun strict_eq_string :: "string \<Rightarrow> jsvalue \<Rightarrow> bool" where
  "strict_eq_string s (JString t) = (s = t)"
| "strict_eq_string s _ = False"

fun hls_lookup :: "hls_entry list \<Rightarrow> jsvalue \<Rightarrow> buffer option" where
  "hls_lookup [] v = None"
| "hls_lookup (e # es) v = (if strict_eq_string (sequence e) v then Some (segment e) else hls_lookup es v)"

definition getHlsSegment :: "mp4frag \<Rightarrow> jsvalue \<Rightarrow> buffer option" where
  "getHlsSegment s v =
     (case this_hlsList s of
        None \<Rightarrow> None
      | Some l \<Rightarrow> if truthy v \<and> length l > 0 then hls_lookup l v else None)"

subsection \<open>The playlist text\<close>

definition dquote :: char where "dquote = CHR 0x22"
definition newline :: string where "newline = [CHR 0x0A]"

definition base_string :: "mp4frag \<Rightarrow> string" where
  "base_string s = (case this_hlsBase s of None \<Rightarrow> ''undefined'' | Some b \<Rightarrow> b)"

definition m3u8_head :: "string \<Rightarrow> string \<Rightarrow> string \<Rightarrow> string" where
  "m3u8_head target first base =
     ''#EXTM3U'' @ newline
     @ ''#EXT-X-VERSION:7'' @ newline
     @ ''#EXT-X-ALLOW-CACHE:NO'' @ newline
     @ ''#EXT-X-TARGETDURATION:'' @ target @ newline
     @ ''#EXT-X-MEDIA-SEQUENCE:'' @ first @ newline
     @ ''#EXT-X-MAP:URI='' @ [dquote] @ ''init-'' @ base @ ''.mp4'' @ [dquote] @ newline"

definition m3u8_entry :: "string \<Rightarrow> hls_entry \<Rightarrow> string" where
  "m3u8_entry base e =
     ''#EXTINF:'' @ toFixed6 (duration e) @ '','' @ newline
     @ base @ sequence e @ ''.m4s'' @ newline"

subsection \<open>\<open>_parseMoov\<close>\<close>

text \<open>
  The init fragment is stored first, so a throw for a missing \<open>avcC\<close> leaves it set.
  \<open>Date.now()\<close> is the next clock reading.
\<close>

definition parseMoov :: "clock \<Rightarrow> mp4frag \<Rightarrow> buffer \<Rightarrow> outcome" where
  "parseMoov clk s v =
     (let s1 = s\<lparr> this_initialization := Some v \<rparr>;
          audioString = (if indexOf v mp4a_tag \<noteq> None then '', mp4a.40.2'' else [])
      in case indexOf v avcC_tag of
           None \<Rightarrow> (Some NoCodecInformation, s1)
         | Some i \<Rightarrow>
             let index = i + 5;
                 s2 = s1\<lparr> this_mime := Some (''video/mp4; codecs='' @ [dquote] @ ''avc1.''
                                  @ hex_upper (slice_range v index (index + 3)) @ audioString @ [dquote]),
                          this_timestamp := Some (clk (clock_reads s1)),
                          clock_reads := Suc (clock_reads s1) \<rparr>;
                 s3 = (case this_hlsList s2 of
                         None \<Rightarrow> s2
                       | Some l \<Rightarrow> s2\<lparr> this_m3u8 := Some (m3u8_head ''0'' ''0'' (base_string s2)) \<rparr>)
             in (None, s3\<lparr> this_trace := this_trace s3 @ [Initialized] \<rparr>))"

subsection \<open>\<open>_setSegment\<close>\<close>

text \<open>\<open>while (list.length > size) list.shift()\<close>.\<close>

fun shift_while :: "'a list \<Rightarrow> nat \<Rightarrow> 'a list" where
  "shift_while [] n = []"
| "shift_while (x # xs) n = (if length (x # xs) > n then shift_while xs n else x # xs)"

text \<open>\<open>String(this._sequence++)\<close>; on \<open>undefined\<close> the slot becomes NaN, which the model keeps as \<open>None\<close>.\<close>

definition next_sequence :: "nat option \<Rightarrow> string \<times> nat option" where
  "next_sequence q = (case q of None \<Rightarrow> (''NaN'', None) | Some n \<Rightarrow> (number_string n, Some (Suc n)))"

text \<open>The three notifications that end \<open>_setSegment\<close>, in the order of the source.\<close>

definition notify :: "mp4frag \<Rightarrow> buffer \<Rightarrow> mp4frag" where
  "notify s seg =
     (let s1 = (if pipesCount s > 0 then s\<lparr> this_trace := this_trace s @ [Pushed seg] \<rparr> else s);
          s2 = (if has_callback s1 then s1\<lparr> this_trace := this_trace s1 @ [CallbackCall seg] \<rparr> else s1)
      in if segmentListeners s2 > 0 then s2\<lparr> this_trace := this_trace s2 @ [SegmentEvent seg] \<rparr> else s2)"

definition buffer_push :: "mp4frag \<Rightarrow> buffer \<Rightarrow> mp4frag" where
  "buffer_push s seg =
     (case this_bufferList s of
        None \<Rightarrow> s
      | Some l \<Rightarrow> s\<lparr> this_bufferList := Some (shift_while (l @ [seg]) (this_bufferListSize s)) \<rparr>)"

text \<open>
  \<open>this._hlsList[0].sequence\<close> throws a TypeError on an empty ring, which a list size of
  zero would leave; the constructor never sets one below 2.
\<close>

definition setSegment :: "clock \<Rightarrow> mp4frag \<Rightarrow> buffer \<Rightarrow> outcome" where
  "setSegment clk s chunk =
     (let currentTime = clk (clock_reads s);
          d = (case this_timestamp s of None \<Rightarrow> NaN
               | Some t \<Rightarrow> Num (of_int (currentTime - t) / 1000));
          s1 = s\<lparr> this_segment := Some chunk, this_duration := Some d,
                   this_timestamp := Some currentTime, clock_reads := Suc (clock_reads s) \<rparr>
      in case this_hlsList s1 of
           None \<Rightarrow> (None, notify (buffer_push s1 chunk) chunk)
         | Some l \<Rightarrow>
             let (str, q) = next_sequence (this_sequence s1);
                 l1 = shift_while (l @ [\<lparr> sequence = str, segment = chunk, duration = d \<rparr>])
                        (this_hlsListSize s1);
                 s2 = s1\<lparr> this_hlsList := Some l1, this_sequence := q \<rparr>
             in (case l1 of
                   [] \<Rightarrow> (Some TypeError, s2)
                 | e # es \<Rightarrow>
                     let s3 = s2\<lparr> this_m3u8 :=
                                Some (m3u8_head (round_string d) (sequence e) (base_string s2)
                                      @ concat (map (m3u8_entry (base_string s2)) l1)) \<rparr>
                     in (None, notify (buffer_push s3 chunk) chunk)))"

subsection \<open>The box parsers\<close>

text \<open>
  \<open>Buffer.concat\<close> throws a TypeError when a list element is \<open>undefined\<close>; the model
  does the same when the length slot is.
\<close>

definition init_blob :: "mp4frag \<Rightarrow> buffer \<Rightarrow> nat \<Rightarrow> buffer option" where
  "init_blob s chunk moovLength =
     (case (this_ftyp s, this_ftypLength s) of
        (Some f, Some fl) \<Rightarrow> Some (buffer_concat [f, chunk] (fl + moovLength))
      | _ \<Rightarrow> None)"

definition segment_blob :: "mp4frag \<Rightarrow> buffer list \<Rightarrow> nat \<Rightarrow> buffer option" where
  "segment_blob s bufs mdatLength =
     (case (this_moof s, this_moofLength s) of
        (Some m, Some ml) \<Rightarrow> Some (buffer_concat (m # bufs) (ml + mdatLength))
      | _ \<Rightarrow> None)"

definition clear_mdat :: "mp4frag \<Rightarrow> mp4frag" where
  "clear_mdat s = s\<lparr> this_moof := None, this_mdatBuffer := None, this_moofLength := None,
                     this_mdatLength := None, this_mdatBufferSize := None,
                     this_parseChunk := FindMoof \<rparr>"

text \<open>Found at \<open>i\<close>, the tag is there: the hunt hands \<open>_findMoof\<close> a chunk it accepts.\<close>

lemma indexOf_Some_take:
  "indexOf c tag = Some i \<Longrightarrow> take (length tag) (drop i c) = tag"
proof (induction c arbitrary: i)
  case Nil
  then show ?case by (simp split: if_splits)
next
  case (Cons b bs)
  show ?case
  proof (cases "take (length tag) (b # bs) = tag")
    case True
    with Cons.prems show ?thesis by simp
  next
    case False
    with Cons.prems obtain j where j: "indexOf bs tag = Some j" "i = Suc j"
      by auto
    with Cons.IH show ?thesis by simp
  qed
qed

lemma hunt_finds_header:
  assumes "indexOf chunk moof_tag = Some i" and "3 < i"
  shows "\<not> bad_header (slice_from chunk (i - 4)) moof_tag"
proof -
  have l4: "length moof_tag = 4"
    by (simp add: moof_tag_def)
  have t: "take 4 (drop i chunk) = moof_tag"
    using indexOf_Some_take [OF assms(1)] by (simp only: l4)
  have "length (take 4 (drop i chunk)) = 4"
    by (simp only: t l4)
  then have len: "i + 4 \<le> length chunk"
    by simp
  have nth: "\<And>k. k < 4 \<Longrightarrow> chunk ! (i + k) = moof_tag ! k"
  proof -
    fix k :: nat assume k: "k < 4"
    have "take 4 (drop i chunk) ! k = drop i chunk ! k" using k by simp
    also have "\<dots> = chunk ! (i + k)" using len k by simp
    finally show "chunk ! (i + k) = moof_tag ! k" using t by simp
  qed
  have d: "\<And>k. k < 4 \<Longrightarrow> drop (i - 4) chunk ! (4 + k) = chunk ! (i + k)"
    using assms(2) len by simp
  show ?thesis
    unfolding bad_header_def slice_from_def
    using len assms(2) nth [of 0] nth [of 1] nth [of 2] nth [of 3]
      d [of 0] d [of 1] d [of 2] d [of 3]
    by simp
qed

text \<open>
  Each method assigns \<open>_parseChunk\<close> and calls it, which is a call of the method just
  assigned. \<open>_findMoof\<close> has no \<open>return\<close> after its call of the hunt: when the hunt
  returns, control falls through to the length read on the same chunk.
  The \<open>console.log\<close> calls before two of the throws are left out.
\<close>

function findFtyp :: "clock \<Rightarrow> mp4frag \<Rightarrow> buffer \<Rightarrow> outcome"
  and findMoov :: "clock \<Rightarrow> mp4frag \<Rightarrow> buffer \<Rightarrow> outcome"
  and moofHunt :: "clock \<Rightarrow> mp4frag \<Rightarrow> buffer \<Rightarrow> outcome"
  and findMoof :: "clock \<Rightarrow> mp4frag \<Rightarrow> buffer \<Rightarrow> outcome"
  and findMdat :: "clock \<Rightarrow> mp4frag \<Rightarrow> buffer \<Rightarrow> outcome"
where
  "findFtyp clk s chunk =
     (if bad_header chunk ftyp_tag then (Some CannotFindFtyp, s)
      else (case readUInt32BE chunk of
        None \<Rightarrow> (Some RangeError, s)
      | Some n \<Rightarrow>
          (let s1 = s\<lparr> this_ftypLength := Some n \<rparr> in
           if n < length chunk then
             findMoov clk (s1\<lparr> this_ftyp := Some (slice_range chunk 0 n), this_parseChunk := FindMoov \<rparr>)
               (slice_from chunk n)
           else if n = length chunk then
             (None, s1\<lparr> this_ftyp := Some chunk, this_parseChunk := FindMoov \<rparr>)
           else (Some FtypLengthGreater, s1))))"
| "findMoov clk s chunk =
     (if bad_header chunk moov_tag then (Some CannotFindMoov, s)
      else (case readUInt32BE chunk of
        None \<Rightarrow> (Some RangeError, s)
      | Some moovLength \<Rightarrow>
          if moovLength < length chunk then
            (case init_blob s chunk moovLength of
               None \<Rightarrow> (Some TypeError, s)
             | Some blob \<Rightarrow>
                 (case parseMoov clk s blob of
                    (Some e, s1) \<Rightarrow> (Some e, s1)
                  | (None, s1) \<Rightarrow>
                      findMoof clk (s1\<lparr> this_ftyp := None, this_ftypLength := None,
                                        this_parseChunk := FindMoof \<rparr>)
                        (slice_from chunk moovLength)))
          else if moovLength = length chunk then
            (case init_blob s chunk moovLength of
               None \<Rightarrow> (Some TypeError, s)
             | Some blob \<Rightarrow>
                 (case parseMoov clk s blob of
                    (Some e, s1) \<Rightarrow> (Some e, s1)
                  | (None, s1) \<Rightarrow>
                      (None, s1\<lparr> this_ftyp := None, this_ftypLength := None,
                                 this_parseChunk := FindMoof \<rparr>)))
          else (Some MoovLengthGreater, s)))"
| "moofHunt clk s chunk =
     (case indexOf chunk moof_tag of
        None \<Rightarrow> (None, s)
      | Some index \<Rightarrow>
          if index > 3 then
            findMoof clk (s\<lparr> this_parseChunk := FindMoof \<rparr>) (slice_from chunk (index - 4))
          else (None, s))"
| "findMoof clk s chunk =
     (case (if bad_header chunk moof_tag then
              (if this_segment s = None then (Some ImmediatelyFailedMoof, s)
               else moofHunt clk (s\<lparr> this_parseChunk := MoofHunt \<rparr>) chunk)
            else (None, s)) of
        (Some e, s1) \<Rightarrow> (Some e, s1)
      | (None, s1) \<Rightarrow>
          (case readUInt32BE chunk of
             None \<Rightarrow> (Some RangeError, s1)
           | Some n \<Rightarrow>
               let s2 = s1\<lparr> this_moofLength := Some n \<rparr> in
               if n < length chunk then
                 findMdat clk (s2\<lparr> this_moof := Some (slice_range chunk 0 n), this_parseChunk := FindMdat \<rparr>)
                   (slice_from chunk n)
               else if n = length chunk then
                 (None, s2\<lparr> this_moof := Some chunk, this_parseChunk := FindMdat \<rparr>)
               else (Some MoofLengthGreater, s2)))"
| "findMdat clk s chunk =
     (case this_mdatBuffer s of
        Some bufs \<Rightarrow>
          let s1 = s\<lparr> this_mdatBuffer := Some (bufs @ [chunk]),
                       this_mdatBufferSize := map_option (\<lambda>n. n + length chunk) (this_mdatBufferSize s) \<rparr>
          in (case this_mdatLength s1 of
                None \<Rightarrow> (None, s1)
              | Some mdatLength \<Rightarrow>
                  (case this_mdatBufferSize s1 of
                     None \<Rightarrow> (None, s1)
                   | Some bufferSize \<Rightarrow>
                       if mdatLength = bufferSize then
                         (case segment_blob s1 (bufs @ [chunk]) mdatLength of
                            None \<Rightarrow> (Some TypeError, s1)
                          | Some seg \<Rightarrow>
                              (case setSegment clk s1 seg of
                                 (Some e, s2) \<Rightarrow> (Some e, s2)
                               | (None, s2) \<Rightarrow> (None, clear_mdat s2)))
                       else if mdatLength < bufferSize then
                         (case segment_blob s1 (bufs @ [chunk]) mdatLength of
                            None \<Rightarrow> (Some TypeError, s1)
                          | Some seg \<Rightarrow>
                              (case setSegment clk s1 seg of
                                 (Some e, s2) \<Rightarrow> (Some e, s2)
                               | (None, s2) \<Rightarrow>
                                   findMoof clk (clear_mdat s2)
                                     (slice_from chunk (bufferSize - mdatLength))))
                       else (None, s1)))
      | None \<Rightarrow>
          if bad_header chunk mdat_tag then (Some CannotFindMdat, s)
          else (case readUInt32BE chunk of
            None \<Rightarrow> (Some RangeError, s)
          | Some n \<Rightarrow>
              let s1 = s\<lparr> this_mdatLength := Some n \<rparr> in
              if n > length chunk then
                (None, s1\<lparr> this_mdatBuffer := Some [chunk],
                           this_mdatBufferSize := Some (length chunk) \<rparr>)
              else if n = length chunk then
                (case segment_blob s1 [chunk] (length chunk) of
                   None \<Rightarrow> (Some TypeError, s1)
                 | Some seg \<Rightarrow>
                     (case setSegment clk s1 seg of
                        (Some e, s2) \<Rightarrow> (Some e, s2)
                      | (None, s2) \<Rightarrow>
                          (None, s2\<lparr> this_moof := None, this_moofLength := None,
                                     this_mdatLength := None, this_parseChunk := FindMoof \<rparr>)))
              else (Some MdatLengthLess, s1)))"
  by pat_completeness auto

termination
proof (relation "measure (\<lambda>x. case x of
      Inl (Inl (clk, s, c)) \<Rightarrow> 4 * length c + 12
    | Inl (Inr (clk, s, c)) \<Rightarrow> 4 * length c + 9
    | Inr (Inl (clk, s, c)) \<Rightarrow> 4 * length c + 3
    | Inr (Inr (Inl (clk, s, c))) \<Rightarrow> 4 * length c + (if bad_header c moof_tag then 4 else 2)
    | Inr (Inr (Inr (clk, s, c))) \<Rightarrow> (if c = [] then 6 else 4 * length c + 1))", goal_cases)
  case 1
  show ?case by simp
next
  case 2
  show ?case by (simp add: slice_from_def)
next
  case 3
  show ?case by (auto simp: slice_from_def)
next
  case (4 clk s chunk i)
  show ?case using hunt_finds_header [OF 4] by (simp add: slice_from_def)
next
  case 5
  then show ?case by simp
next
  case (6 clk s chunk e s1 n s2)
  have "n < length chunk" by fact
  then show ?case by (auto simp: slice_from_def)
next
  case (7 clk s chunk bufs s1 mdatLength bufferSize)
  have a: "this_mdatBufferSize s1 = Some bufferSize" and b: "mdatLength < bufferSize"
    and c: "s1 = s\<lparr>this_mdatBuffer := Some (bufs @ [chunk]),
             this_mdatBufferSize := map_option (\<lambda>n. n + length chunk) (this_mdatBufferSize s)\<rparr>"
    by fact+
  show ?case
  proof (cases "chunk = []")
    case True
    then show ?thesis by (simp add: slice_from_def)
  next
    case False
    then have "0 < length chunk" by simp
    with b have "length chunk - (bufferSize - mdatLength) < length chunk" by arith
    then have "4 * length (slice_from chunk (bufferSize - mdatLength)) + 4 < 4 * length chunk + 1"
      by (simp add: slice_from_def)
    then show ?thesis using False by (simp split: if_splits)
  qed
qed


declare findFtyp.simps [simp del] findMoov.simps [simp del] moofHunt.simps [simp del]
  findMoof.simps [simp del] findMdat.simps [simp del]

subsection \<open>\<open>_transform\<close> and \<open>_flush\<close>\<close>

definition transform :: "clock \<Rightarrow> mp4frag \<Rightarrow> buffer \<Rightarrow> outcome" where
  "transform clk s chunk =
     (case this_parseChunk s of
        FindFtyp \<Rightarrow> findFtyp clk s chunk
      | FindMoov \<Rightarrow> findMoov clk s chunk
      | FindMoof \<Rightarrow> findMoof clk s chunk
      | FindMdat \<Rightarrow> findMdat clk s chunk
      | MoofHunt \<Rightarrow> moofHunt clk s chunk)"

definition flush :: "mp4frag \<Rightarrow> mp4frag" where
  "flush s =
     (let s1 = s\<lparr> this_parseChunk := FindFtyp, this_mime := None, this_initialization := None,
                   this_segment := None, this_timestamp := None, this_duration := None,
                   this_moof := None, this_mdatBuffer := None, this_moofLength := None,
                   this_mdatLength := None, this_mdatBufferSize := None, this_ftyp := None,
                   this_ftypLength := None, this_m3u8 := None \<rparr>;
          s2 = (case this_hlsList s1 of
                  None \<Rightarrow> s1
                | Some l \<Rightarrow> s1\<lparr> this_hlsList := Some [], this_sequence := Some 0 \<rparr>)
      in case this_bufferList s2 of
           None \<Rightarrow> s2
         | Some l \<Rightarrow> s2\<lparr> this_bufferList := Some [] \<rparr>)"

text \<open>
  A session's writes: every chunk goes through \<open>_transform\<close>; the first throw ends the run
  with the instance as the throw left it.
\<close>

fun writes :: "clock \<Rightarrow> mp4frag \<Rightarrow> buffer list \<Rightarrow> outcome" where
  "writes clk s [] = (None, s)"
| "writes clk s (chunk # chunks) =
     (case transform clk s chunk of
        (Some e, s1) \<Rightarrow> (Some e, s1)
      | (None, s1) \<Rightarrow> writes clk s1 chunks)"


subsection \<open>What a call of a parser method does to the instance\<close>

text \<open>
  The methods \<open>_findMoof\<close>, \<open>_findMdat\<close> and \<open>_moofHunt\<close> are selected only after the init
  fragment has been parsed: an instance that has one of them in \<open>_parseChunk\<close> is late.
  Two instances are \<open>internal_eq\<close> when they differ at most in \<open>_parseChunk\<close> and in the
  slots that hold a box in progress. A call changes the instance by steps of four kinds:
  a change of those slots within a phase, a failed \<open>_parseMoov\<close>, a successful
  \<open>_parseMoov\<close> followed by the selection of \<open>_findMoof\<close>, and a \<open>_setSegment\<close>.
\<close>

definition late :: "mp4frag \<Rightarrow> bool" where
  "late s \<longleftrightarrow> this_parseChunk s = FindMoof \<or> this_parseChunk s = FindMdat
     \<or> this_parseChunk s = MoofHunt"

definition internal_eq :: "mp4frag \<Rightarrow> mp4frag \<Rightarrow> bool" where
  "internal_eq s s' \<longleftrightarrow>
     s' = s\<lparr> this_parseChunk := this_parseChunk s', this_ftyp := this_ftyp s',
             this_ftypLength := this_ftypLength s', this_moof := this_moof s',
             this_moofLength := this_moofLength s', this_mdatBuffer := this_mdatBuffer s',
             this_mdatLength := this_mdatLength s',
             this_mdatBufferSize := this_mdatBufferSize s' \<rparr>"

inductive steps :: "clock \<Rightarrow> mp4frag \<Rightarrow> mp4frag \<Rightarrow> bool" for clk :: clock where
  stay: "steps clk s s"
| internal: "steps clk s s1 \<Longrightarrow> internal_eq s1 s2 \<Longrightarrow> late s2 = late s1 \<Longrightarrow> steps clk s s2"
| init_fail: "steps clk s s1 \<Longrightarrow> \<not> late s1 \<Longrightarrow> parseMoov clk s1 v = (Some e, s2)
    \<Longrightarrow> steps clk s s2"
| init_ok: "steps clk s s1 \<Longrightarrow> \<not> late s1 \<Longrightarrow> parseMoov clk s1 v = (None, s2)
    \<Longrightarrow> internal_eq s2 s3 \<Longrightarrow> late s3 \<Longrightarrow> steps clk s s3"
| publish: "steps clk s s1 \<Longrightarrow> late s1 \<Longrightarrow> setSegment clk s1 seg = (e, s2)
    \<Longrightarrow> steps clk s s2"

text \<open>
  The writes of a session, each handed the instance as the one before left it, whether it
  threw or not.
\<close>

definition feed :: "clock \<Rightarrow> mp4frag \<Rightarrow> buffer list \<Rightarrow> mp4frag" where
  "feed clk s chunks = foldl (\<lambda>s chunk. snd (transform clk s chunk)) s chunks"

subsection \<open>The published state as a function of the segments published\<close>

text \<open>
  A publication is a segment and its duration. \<open>notifications\<close> is what one
  \<open>_setSegment\<close> sends out; \<open>ring_of n pubs\<close> is the HLS ring after the publications
  \<open>pubs\<close> with list size \<open>n\<close>: the last \<open>n\<close> of them, the \<open>i\<close>-th numbered \<open>i\<close>, counted
  from zero; \<open>playlist_of\<close> is the playlist text for a ring. Before the init parse an
  instance satisfies \<open>early_inv\<close>; after it, \<open>late_inv\<close> for the publications so far.
\<close>

type_synonym publication = "buffer \<times> jsnum"

definition notifications :: "mp4frag \<Rightarrow> buffer \<Rightarrow> event list" where
  "notifications s seg =
     (if pipesCount s > 0 then [Pushed seg] else [])
     @ (if has_callback s then [CallbackCall seg] else [])
     @ (if segmentListeners s > 0 then [SegmentEvent seg] else [])"

definition ring_entry :: "nat \<times> publication \<Rightarrow> hls_entry" where
  "ring_entry p = \<lparr> sequence = number_string (fst p), segment = fst (snd p), duration = snd (snd p) \<rparr>"

definition ring_of :: "nat \<Rightarrow> publication list \<Rightarrow> hls_entry list" where
  "ring_of n pubs = drop (length pubs - n) (map ring_entry (zip [0..<length pubs] pubs))"

definition playlist_of :: "string \<Rightarrow> hls_entry list \<Rightarrow> string" where
  "playlist_of base l =
     m3u8_head (round_string (duration (last l))) (sequence (hd l)) base
     @ concat (map (m3u8_entry base) l)"

definition segment_duration :: "clock \<Rightarrow> mp4frag \<Rightarrow> jsnum" where
  "segment_duration clk s =
     (case this_timestamp s of None \<Rightarrow> NaN
      | Some t \<Rightarrow> Num (of_int (clk (clock_reads s) - t) / 1000))"

definition early_inv :: "mp4frag \<Rightarrow> bool" where
  "early_inv s \<longleftrightarrow>
     this_trace s = [] \<and> this_segment s = None \<and> this_duration s = None \<and> this_m3u8 s = None
     \<and> (case this_hlsList s of
          None \<Rightarrow> this_sequence s = None
        | Some l \<Rightarrow> l = [] \<and> this_sequence s = Some 0 \<and> 0 < this_hlsListSize s)"

definition late_inv :: "mp4frag \<Rightarrow> publication list \<Rightarrow> bool" where
  "late_inv s pubs \<longleftrightarrow>
     this_trace s = Initialized # concat (map (\<lambda>p. notifications s (fst p)) pubs)
     \<and> this_segment s = (if pubs = [] then None else Some (fst (last pubs)))
     \<and> this_duration s = (if pubs = [] then None else Some (snd (last pubs)))
     \<and> (case this_hlsList s of
          None \<Rightarrow> this_sequence s = None \<and> this_m3u8 s = None
        | Some l \<Rightarrow>
            0 < this_hlsListSize s \<and> this_sequence s = Some (length pubs)
            \<and> l = ring_of (this_hlsListSize s) pubs
            \<and> this_m3u8 s = Some (if pubs = [] then m3u8_head ''0'' ''0'' (base_string s)
                                  else playlist_of (base_string s) l))"

definition session_inv :: "mp4frag \<Rightarrow> bool" where
  "session_inv s \<longleftrightarrow> (if late s then \<exists>pubs. late_inv s pubs else early_inv s)"

subsection \<open>An instance without its HLS slots\<close>

text \<open>
  \<open>strip_hls\<close> removes what the constructor sets for a non-empty \<open>hlsBase\<close> and what the
  HLS branch of \<open>_parseMoov\<close> and \<open>_setSegment\<close> writes. An instance is \<open>hls_sized\<close> when
  its ring, if it has one, comes with a positive list size and a sequence counter, as the
  constructor leaves it. \<open>commutes s r rN\<close> relates the outcome \<open>r\<close> of a call on \<open>s\<close> to the
  outcome \<open>rN\<close> of the same call on \<open>strip_hls s\<close>. \<open>hls_enabled\<close> and \<open>buffer_option\<close>
  read the two relevant parts of the options.
\<close>

definition strip_hls :: "mp4frag \<Rightarrow> mp4frag" where
  "strip_hls s = s\<lparr> this_hlsListSize := 0, this_hlsList := None, this_hlsBase := None,
                     this_sequence := None, this_m3u8 := None \<rparr>"

definition hls_sized :: "mp4frag \<Rightarrow> bool" where
  "hls_sized s \<longleftrightarrow> (case this_hlsList s of None \<Rightarrow> True
     | Some l \<Rightarrow> 0 < this_hlsListSize s \<and> this_sequence s \<noteq> None)"

definition commutes :: "mp4frag \<Rightarrow> outcome \<Rightarrow> outcome \<Rightarrow> bool" where
  "commutes s r rN \<longleftrightarrow> (hls_sized s \<longrightarrow> rN = (fst r, strip_hls (snd r)) \<and> hls_sized (snd r))"

definition hls_enabled :: "options option \<Rightarrow> bool" where
  "hls_enabled opts =
     (case opts of None \<Rightarrow> False
      | Some opt \<Rightarrow> (case hlsBase opt of None \<Rightarrow> False | Some b \<Rightarrow> b \<noteq> []))"

definition buffer_option :: "options option \<Rightarrow> int option option" where
  "buffer_option opts = (case opts of None \<Rightarrow> None | Some opt \<Rightarrow> bufferListSize opt)"

subsection \<open>Streams and their chunkings\<close>

text \<open>
  A box of a given type is a buffer with that type in its header and its own length as
  the declared length. A valid stream is an \<open>ftyp\<close> box, a \<open>moov\<close> box (with the two of them
  containing \<open>avcC\<close>) and a list of segments, each a \<open>moof\<close> box and an \<open>mdat\<close> box.
  A plan describes a chunking of such a stream whose boundaries the parser accepts: whether
  the \<open>ftyp\<close> box shares its chunk with what follows, whether the \<open>moov\<close> box does, and for
  every segment whether the \<open>moof\<close> box does and into which pieces the \<open>mdat\<close> box is cut:
  a first piece of at least the eight header bytes and further non-empty pieces, the last of
  which ends the chunk. \<open>join\<close> puts a box in front of a list of chunks, glued to the first
  or not. \<open>ready\<close>, \<open>starting\<close>, \<open>holding\<close>, \<open>awaiting\<close> and \<open>collecting\<close> name the instance
  between the boxes of a stream; \<open>init_done\<close> and \<open>publish\<close> are the instance after the init
  parse and after a segment, and \<open>publish_all\<close> after a list of segments.
\<close>

definition is_box :: "buffer \<Rightarrow> buffer \<Rightarrow> bool" where
  "is_box tag b \<longleftrightarrow> \<not> bad_header b tag \<and> readUInt32BE b = Some (length b)"

fun join :: "bool \<Rightarrow> buffer \<Rightarrow> buffer list \<Rightarrow> buffer list" where
  "join g x [] = [x]"
| "join g x (y # ys) = (if g then (x @ y) # ys else x # y # ys)"

definition good_pieces :: "buffer \<Rightarrow> buffer list \<Rightarrow> bool" where
  "good_pieces d ps \<longleftrightarrow>
     concat ps = d \<and> ps \<noteq> [] \<and> 8 \<le> length (hd ps) \<and> (\<forall>p \<in> set (tl ps). p \<noteq> [])"

definition ready :: "mp4frag \<Rightarrow> bool" where
  "ready s \<longleftrightarrow>
     this_parseChunk s = FindMoof \<and> this_moof s = None \<and> this_moofLength s = None
     \<and> this_mdatBuffer s = None \<and> this_mdatLength s = None \<and> this_mdatBufferSize s = None
     \<and> this_ftyp s = None \<and> this_ftypLength s = None \<and> hls_sized s"

definition publish :: "clock \<Rightarrow> mp4frag \<Rightarrow> buffer \<Rightarrow> mp4frag" where
  "publish clk s seg = snd (setSegment clk s seg)"

definition init_done :: "clock \<Rightarrow> mp4frag \<Rightarrow> buffer \<Rightarrow> mp4frag" where
  "init_done clk s blob = (snd (parseMoov clk s blob))\<lparr> this_parseChunk := FindMoof \<rparr>"

definition collecting :: "mp4frag \<Rightarrow> buffer \<Rightarrow> buffer list \<Rightarrow> nat \<Rightarrow> mp4frag" where
  "collecting s a bufs n =
     s\<lparr> this_parseChunk := FindMdat, this_moof := Some a, this_moofLength := Some (length a),
        this_mdatBuffer := Some bufs, this_mdatLength := Some n,
        this_mdatBufferSize := Some (length (concat bufs)) \<rparr>"

definition awaiting :: "mp4frag \<Rightarrow> buffer \<Rightarrow> mp4frag" where
  "awaiting s a =
     s\<lparr> this_moofLength := Some (length a), this_moof := Some a, this_parseChunk := FindMdat \<rparr>"

definition starting :: "mp4frag \<Rightarrow> bool" where
  "starting s \<longleftrightarrow>
     this_parseChunk s = FindFtyp \<and> this_moof s = None \<and> this_moofLength s = None
     \<and> this_mdatBuffer s = None \<and> this_mdatLength s = None \<and> this_mdatBufferSize s = None
     \<and> this_ftyp s = None \<and> this_ftypLength s = None \<and> hls_sized s"

definition holding :: "mp4frag \<Rightarrow> buffer \<Rightarrow> mp4frag" where
  "holding s f =
     s\<lparr> this_ftypLength := Some (length f), this_ftyp := Some f, this_parseChunk := FindMoov \<rparr>"

definition valid_stream :: "buffer \<Rightarrow> buffer \<Rightarrow> (buffer \<times> buffer) list \<Rightarrow> bool" where
  "valid_stream f m segs \<longleftrightarrow>
     is_box ftyp_tag f \<and> is_box moov_tag m \<and> indexOf (f @ m) avcC_tag \<noteq> None
     \<and> list_all (\<lambda>(a, d). is_box moof_tag a \<and> is_box mdat_tag d) segs"

definition stream_bytes :: "buffer \<Rightarrow> buffer \<Rightarrow> (buffer \<times> buffer) list \<Rightarrow> buffer" where
  "stream_bytes f m segs = f @ m @ concat (map (\<lambda>(a, d). a @ d) segs)"

type_synonym plan = "bool \<times> bool \<times> (bool \<times> buffer list) list"

definition good_plan :: "(buffer \<times> buffer) list \<Rightarrow> plan \<Rightarrow> bool" where
  "good_plan segs pl \<longleftrightarrow>
     list_all2 (\<lambda>(a, d) (g, ps). good_pieces d ps) segs (snd (snd pl))"

definition segment_chunks_of :: "(buffer \<times> buffer) \<times> (bool \<times> buffer list) \<Rightarrow> buffer list" where
  "segment_chunks_of x = join (fst (snd x)) (fst (fst x)) (snd (snd x))"

definition chunking :: "buffer \<Rightarrow> buffer \<Rightarrow> (buffer \<times> buffer) list \<Rightarrow> plan \<Rightarrow> buffer list" where
  "chunking f m segs pl =
     join (fst pl) f (join (fst (snd pl)) m
       (concat (map segment_chunks_of (zip segs (snd (snd pl))))))"

definition publish_all :: "clock \<Rightarrow> mp4frag \<Rightarrow> (buffer \<times> buffer) list \<Rightarrow> mp4frag" where
  "publish_all clk s segs = foldl (\<lambda>s (a, d). publish clk s (a @ d)) s segs"

text \<open>The payloads of the segment events of a trace, in order.\<close>

definition segment_events :: "event list \<Rightarrow> buffer list" where
  "segment_events tr = concat (map (\<lambda>e. case e of SegmentEvent b \<Rightarrow> [b] | _ \<Rightarrow> []) tr)"

subsection \<open>Example streams\<close>

text \<open>
  The smallest boxes the parser accepts: an 8-byte \<open>ftyp\<close>, a 16-byte \<open>moov\<close> whose
  body is \<open>avcC\<close>, one version byte and the bytes \<open>4D 40 1F\<close>, an 8-byte \<open>moof\<close> and a
  12-byte \<open>mdat\<close>; and two clocks, one that advances a second at every reading and one
  that stands still.
\<close>

definition ex_ftyp :: buffer where
  "ex_ftyp = [0, 0, 0, 8, 0x66, 0x74, 0x79, 0x70]"

definition ex_moov :: buffer where
  "ex_moov = [0, 0, 0, 16, 0x6D, 0x6F, 0x6F, 0x76, 0x61, 0x76, 0x63, 0x43, 1, 0x4D, 0x40, 0x1F]"

definition ex_moof :: buffer where
  "ex_moof = [0, 0, 0, 8, 0x6D, 0x6F, 0x6F, 0x66]"

definition ex_mdat :: buffer where
  "ex_mdat = [0, 0, 0, 12, 0x6D, 0x64, 0x61, 0x74, 1, 2, 3, 4]"

definition ex_clock :: clock where
  "ex_clock n = 1000 * int n"

definition still_clock :: clock where
  "still_clock n = 1700000000000"

definition ex_hls_options :: options where
  "ex_hls_options = \<lparr> hlsBase = Some ''seg'', hlsListSize = Some 3, bufferListSize = None \<rparr>"

text \<open>An HLS-enabled instance with one listener of the segment event, and a chunk that is no box.\<close>

definition ex_parser :: mp4frag where
  "ex_parser = constructor (Some ex_hls_options) False 0 1"

definition ex_garbage :: buffer where
  "ex_garbage = [0xFF, 0xFF, 0xFF, 0xFF, 0, 0, 0, 0]"

text \<open>The example session: the init fragment in one chunk, one segment in the next.\<close>

definition ex_session :: mp4frag where
  "ex_session = feed ex_clock ex_parser [ex_ftyp @ ex_moov, ex_moof @ ex_mdat]"

text \<open>
  A 16-byte \<open>mdat\<close>, whose second half is as long as a \<open>moof\<close>; a clock whose readings
  are 1.5, 4.5, 7.5 seconds apart; and a session of three segments on an instance whose
  HLS ring holds two.
\<close>

definition ex_long_mdat :: buffer where
  "ex_long_mdat = [0, 0, 0, 16, 0x6D, 0x64, 0x61, 0x74, 1, 2, 3, 4, 5, 6, 7, 8]"

definition ex_uneven_clock :: clock where
  "ex_uneven_clock n = 1500 * int n * int n"

definition ex_short_ring_options :: options where
  "ex_short_ring_options = \<lparr> hlsBase = Some ''seg'', hlsListSize = Some 2, bufferListSize = None \<rparr>"

definition ex_short_ring_session :: mp4frag where
  "ex_short_ring_session =
     feed ex_uneven_clock (constructor (Some ex_short_ring_options) False 0 1)
       [ex_ftyp @ ex_moov, ex_moof @ ex_mdat, ex_moof @ ex_mdat, ex_moof @ ex_mdat]"

text \<open>The example stream's segments and two plans: everything in one chunk, and every box in a
  chunk of its own with the \<open>mdat\<close> cut in two.\<close>

definition ex_segments :: "(buffer \<times> buffer) list" where
  "ex_segments = [(ex_moof, ex_mdat)]"

definition one_chunk_plan :: plan where
  "one_chunk_plan = (True, True, [(True, [ex_mdat])])"

definition five_chunk_plan :: plan where
  "five_chunk_plan = (False, False, [(False, [take 9 ex_mdat, drop 9 ex_mdat])])"

section \<open>Properties\<close>

subsection \<open>What \<open>indexOf\<close> finds\<close>

lemma indexOf_eq_Least:
  assumes "tag \<noteq> []"
  shows "indexOf b tag =
     (if \<exists>i. take (length tag) (drop i b) = tag
      then Some (LEAST i. take (length tag) (drop i b) = tag) else None)"
proof (induction b)
  case Nil
  with assms show ?case by auto
next
  case (Cons x xs)
  let ?P = "\<lambda>i. take (length tag) (drop i (x # xs)) = tag"
  let ?Q = "\<lambda>i. take (length tag) (drop i xs) = tag"
  show ?case
  proof (cases "?P 0")
    case True
    then have "(LEAST i. ?P i) = 0" by (rule Least_eq_0)
    moreover have "\<exists>i. ?P i" using True by blast
    ultimately show ?thesis using True by simp
  next
    case False
    have PQ: "\<And>i. ?P (Suc i) = ?Q i" by simp
    have ex: "(\<exists>i. ?P i) = (\<exists>i. ?Q i)"
    proof
      assume "\<exists>i. ?P i"
      then obtain i where i: "?P i" ..
      with False obtain j where "i = Suc j" by (cases i) auto
      with i show "\<exists>i. ?Q i" by auto
    next
      assume "\<exists>i. ?Q i"
      then obtain i where "?Q i" ..
      then have "?P (Suc i)" by simp
      then show "\<exists>i. ?P i" ..
    qed
    show ?thesis
    proof (cases "\<exists>i. ?Q i")
      case True
      then obtain j where "?Q j" ..
      then have "?P (Suc j)" by simp
      from Least_Suc [of ?P, OF this False]
      have "(LEAST i. ?P i) = Suc (LEAST i. ?Q i)" by simp
      with True ex False Cons.IH show ?thesis by simp
    next
      case no: False
      with ex False Cons.IH show ?thesis by simp
    qed
  qed
qed

subsection \<open>Evaluating the parser on the example streams\<close>

lemmas ex_defs = ex_ftyp_def ex_moov_def ex_moof_def ex_mdat_def ex_garbage_def ex_parser_def
  ex_hls_options_def ex_clock_def still_clock_def
lemmas tag_defs = ftyp_tag_def moov_tag_def moof_tag_def mdat_tag_def avcC_tag_def mp4a_tag_def
lemmas parser_simps = findFtyp.simps findMoov.simps moofHunt.simps findMoof.simps findMdat.simps
lemmas buf_defs = bad_header_def readUInt32BE_def slice_from_def slice_range_def buffer_concat_def
  init_blob_def segment_blob_def
lemmas run_defs = transform_def parser_simps buf_defs tag_defs constructor_def fresh_def
  clamp_hlsListSize_def clamp_bufferListSize_def parseMoov_def hex_upper_def hex_digit_def Let_def
  setSegment_def next_sequence_def notify_def buffer_push_def clear_mdat_def

lemmas feed_defs = feed_def ex_session_def

text \<open>The decimal digits of a number, and the floor of a fraction of two numerals.\<close>

lemma number_string_digit: "n < 10 \<Longrightarrow> number_string n = [digit_char n]"
  by (simp add: number_string.simps [of n])

lemma number_string_step:
  assumes "10 \<le> n"
  shows "number_string n = number_string (n div 10) @ [digit_char (n mod 10)]"
proof -
  from assms have "n div 10 \<noteq> 0" by (simp add: div_eq_0_iff)
  then show ?thesis by (simp add: number_string.simps [of n] Let_def)
qed

lemma floor_rat_numeral: "\<lfloor>(numeral a :: rat) / numeral b\<rfloor> = numeral a div numeral b"
proof -
  have "\<lfloor>(of_int (numeral a) :: rat) / of_int (numeral b)\<rfloor> = numeral a div numeral b"
    by (rule floor_divide_of_int_eq)
  then show ?thesis by simp
qed

subsection \<open>Facts about \<open>_setSegment\<close>\<close>

lemma length_buffer_concat: "length (buffer_concat bufs n) = n"
  by (simp add: buffer_concat_def)

lemma shift_while_drop: "shift_while xs n = drop (length xs - n) xs"
proof (induction xs)
  case Nil
  show ?case by simp
next
  case (Cons x xs)
  show ?case
  proof (cases "n < length (x # xs)")
    case True
    then have "length (x # xs) - n = Suc (length xs - n)" by simp
    with True Cons.IH show ?thesis by simp
  next
    case False
    then show ?thesis by simp
  qed
qed

lemma shift_while_snoc_nonempty: "0 < n \<Longrightarrow> shift_while (xs @ [x]) n \<noteq> []"
  by (simp add: shift_while_drop)

lemma setSegment_ok:
  assumes "this_hlsList s \<noteq> None \<longrightarrow> 0 < this_hlsListSize s"
  shows "fst (setSegment clk s seg) = None"
proof (cases "this_hlsList s")
  case None
  then show ?thesis by (simp add: setSegment_def Let_def)
next
  case (Some l)
  with assms have pos: "0 < this_hlsListSize s" by simp
  show ?thesis
    using Some
    by (simp add: setSegment_def Let_def shift_while_snoc_nonempty [OF pos]
        split: prod.split list.split)
qed

lemma setSegment_segment: "this_segment (snd (setSegment clk s seg)) = Some seg"
  by (simp add: setSegment_def notify_def buffer_push_def Let_def
      split: option.split list.split prod.split)

subsection \<open>Every call is a sequence of steps\<close>

lemma steps_trans: "steps clk s1 s2 \<Longrightarrow> steps clk s s1 \<Longrightarrow> steps clk s s2"
proof (induction rule: steps.induct)
  case (stay s1)
  then show ?case .
next
  case (internal s1 a b)
  then show ?case by (blast intro: steps.internal)
next
  case (init_fail s1 a v e b)
  then show ?case by (blast intro: steps.init_fail)
next
  case (init_ok s1 a v b c)
  then show ?case by (blast intro: steps.init_ok)
next
  case (publish s1 a seg e b)
  then show ?case by (blast intro: steps.publish)
qed

lemma setSegment_parseChunk: "this_parseChunk (snd (setSegment clk s seg)) = this_parseChunk s"
  by (simp add: setSegment_def notify_def buffer_push_def Let_def
      split: option.split list.split prod.split)

lemma parseMoov_parseChunk: "this_parseChunk (snd (parseMoov clk s v)) = this_parseChunk s"
  by (simp add: parseMoov_def Let_def split: option.split)

lemma steps_late: "steps clk s s' \<Longrightarrow> late s \<Longrightarrow> late s'"
proof (induction rule: steps.induct)
  case (publish s s1 seg e s2)
  then have "late s1" by simp
  moreover have "this_parseChunk s2 = this_parseChunk s1"
    using setSegment_parseChunk [of clk s1 seg] publish.hyps(3) by simp
  ultimately show ?case by (simp add: late_def)
qed auto

lemma internal_step: "internal_eq s s' \<Longrightarrow> late s' = late s \<Longrightarrow> steps clk s s'"
  by (rule steps.internal [OF steps.stay])

lemma publish_step: "late s \<Longrightarrow> setSegment clk s seg = (e, s') \<Longrightarrow> steps clk s s'"
  by (rule steps.publish [OF steps.stay])

lemma late_clear_mdat: "late (clear_mdat s)"
  by (simp add: late_def clear_mdat_def)

lemma clear_mdat_step: "late s \<Longrightarrow> steps clk s (clear_mdat s)"
  by (intro internal_step) (simp_all add: internal_eq_def clear_mdat_def late_def)

lemma parser_steps:
  "\<not> late s \<Longrightarrow> steps clk s (snd (findFtyp clk s c))"
  "\<not> late s \<Longrightarrow> steps clk s (snd (findMoov clk s c))"
  "late s \<Longrightarrow> steps clk s (snd (moofHunt clk s c))"
  "late s \<Longrightarrow> steps clk s (snd (findMoof clk s c))"
  "late s \<Longrightarrow> steps clk s (snd (findMdat clk s c))"
proof (induction clk s c and clk s c and clk s c and clk s c and clk s c
    rule: findFtyp_findMoov_moofHunt_findMoof_findMdat.induct)
  case (1 clk s chunk)
  note early = \<open>\<not> late s\<close>
  show ?case
  proof (cases "bad_header chunk ftyp_tag")
    case True
    then show ?thesis by (simp add: findFtyp.simps steps.stay)
  next
    case good: False
    show ?thesis
    proof (cases "readUInt32BE chunk")
      case None
      with good show ?thesis by (simp add: findFtyp.simps steps.stay)
    next
      case (Some n)
      let ?s1 = "s\<lparr> this_ftypLength := Some n \<rparr>"
      consider (less) "n < length chunk" | (eq) "n = length chunk" | (greater) "length chunk < n"
        by linarith
      then show ?thesis
      proof cases
        case less
        let ?s2 = "?s1\<lparr> this_ftyp := Some (slice_range chunk 0 n), this_parseChunk := FindMoov \<rparr>"
        have r: "findFtyp clk s chunk = findMoov clk ?s2 (slice_from chunk n)"
          using good Some less by (simp add: findFtyp.simps)
        have e2: "\<not> late ?s2" by (simp add: late_def)
        have a: "steps clk s ?s2"
          using early by (intro internal_step) (simp_all add: internal_eq_def late_def)
        have b: "steps clk ?s2 (snd (findMoov clk ?s2 (slice_from chunk n)))"
          by (rule "1.IH" [OF good Some refl less e2])
        from steps_trans [OF b a] r show ?thesis by simp
      next
        case eq
        have r: "findFtyp clk s chunk
            = (None, ?s1\<lparr> this_ftyp := Some chunk, this_parseChunk := FindMoov \<rparr>)"
          using good Some eq by (simp add: findFtyp.simps)
        show ?thesis
          unfolding r using early by (simp, intro internal_step) (simp_all add: internal_eq_def late_def)
      next
        case greater
        have r: "findFtyp clk s chunk = (Some FtypLengthGreater, ?s1)"
          using good Some greater by (simp add: findFtyp.simps)
        show ?thesis
          unfolding r using early by (simp, intro internal_step) (simp_all add: internal_eq_def late_def)
      qed
    qed
  qed
next
  case (2 clk s chunk)
  note early = \<open>\<not> late s\<close>
  show ?case
  proof (cases "bad_header chunk moov_tag")
    case True
    then show ?thesis by (simp add: findMoov.simps steps.stay)
  next
    case good: False
    show ?thesis
    proof (cases "readUInt32BE chunk")
      case None
      with good show ?thesis by (simp add: findMoov.simps steps.stay)
    next
      case (Some n)
      show ?thesis
      proof (cases "length chunk < n")
        case True
        with good Some show ?thesis by (simp add: findMoov.simps steps.stay)
      next
        case fits: False
        show ?thesis
        proof (cases "init_blob s chunk n")
          case None
          with good Some fits show ?thesis by (auto simp: findMoov.simps steps.stay)
        next
          case blob: (Some blob)
          obtain e s1 where pm: "parseMoov clk s blob = (e, s1)"
            by (cases "parseMoov clk s blob") auto
          show ?thesis
          proof (cases e)
            case (Some err)
            have r: "findMoov clk s chunk = (Some err, s1)"
              using good \<open>readUInt32BE chunk = Some n\<close> fits blob pm Some
              by (auto simp: findMoov.simps)
            have "steps clk s s1"
              using steps.init_fail [OF steps.stay early] pm Some by blast
            with r show ?thesis by simp
          next
            case None
            let ?s3 = "s1\<lparr> this_ftyp := None, this_ftypLength := None, this_parseChunk := FindMoof \<rparr>"
            have l3: "late ?s3" by (simp add: late_def)
            have pm': "parseMoov clk s blob = (None, s1)"
              using pm None by simp
            have a: "steps clk s ?s3"
              by (rule steps.init_ok [OF steps.stay early pm' _ l3]) (simp add: internal_eq_def)
            show ?thesis
            proof (cases "n < length chunk")
              case True
              have r: "findMoov clk s chunk = findMoof clk ?s3 (slice_from chunk n)"
                using good \<open>readUInt32BE chunk = Some n\<close> True blob pm None
                by (simp add: findMoov.simps)
              have b: "steps clk ?s3 (snd (findMoof clk ?s3 (slice_from chunk n)))"
                by (rule "2.IH" [OF good \<open>readUInt32BE chunk = Some n\<close> True blob pm [symmetric] None l3])
              from steps_trans [OF b a] r show ?thesis by simp
            next
              case False
              with fits have eq: "n = length chunk" by simp
              have r: "findMoov clk s chunk = (None, ?s3)"
                using good \<open>readUInt32BE chunk = Some n\<close> eq blob pm None
                by (simp add: findMoov.simps)
              from a r show ?thesis by simp
            qed
          qed
        qed
      qed
    qed
  qed
next
  case (3 clk s chunk)
  note l = \<open>late s\<close>
  show ?case
  proof (cases "indexOf chunk moof_tag")
    case None
    then show ?thesis by (simp add: moofHunt.simps steps.stay)
  next
    case (Some i)
    show ?thesis
    proof (cases "3 < i")
      case True
      let ?s1 = "s\<lparr> this_parseChunk := FindMoof \<rparr>"
      have r: "moofHunt clk s chunk = findMoof clk ?s1 (slice_from chunk (i - 4))"
        using Some True by (simp add: moofHunt.simps)
      have l1: "late ?s1" by (simp add: late_def)
      have a: "steps clk s ?s1"
        using l by (intro internal_step) (simp_all add: internal_eq_def late_def)
      have b: "steps clk ?s1 (snd (findMoof clk ?s1 (slice_from chunk (i - 4))))"
        by (rule "3.IH" [OF Some True l1])
      from steps_trans [OF b a] r show ?thesis by simp
    next
      case False
      with Some show ?thesis by (simp add: moofHunt.simps steps.stay)
    qed
  qed
next
  case (4 clk s chunk)
  note l = \<open>late s\<close>
  define pre where "pre =
    (if bad_header chunk moof_tag
     then if this_segment s = None then (Some ImmediatelyFailedMoof, s)
          else moofHunt clk (s\<lparr>this_parseChunk := MoofHunt\<rparr>) chunk
     else (None, s))"
  obtain e s1 where pre: "pre = (e, s1)" by (cases pre) auto
  have unf: "findMoof clk s chunk =
      (case pre of
        (Some e, s1) \<Rightarrow> (Some e, s1)
      | (None, s1) \<Rightarrow>
          (case readUInt32BE chunk of
             None \<Rightarrow> (Some RangeError, s1)
           | Some n \<Rightarrow>
               let s2 = s1\<lparr> this_moofLength := Some n \<rparr> in
               if n < length chunk then
                 findMdat clk (s2\<lparr> this_moof := Some (slice_range chunk 0 n), this_parseChunk := FindMdat \<rparr>)
                   (slice_from chunk n)
               else if n = length chunk then
                 (None, s2\<lparr> this_moof := Some chunk, this_parseChunk := FindMdat \<rparr>)
               else (Some MoofLengthGreater, s2)))"
    unfolding pre_def by (rule findMoof.simps)
  have s1: "steps clk s s1"
  proof (cases "bad_header chunk moof_tag \<and> this_segment s \<noteq> None")
    case True
    let ?sh = "s\<lparr>this_parseChunk := MoofHunt\<rparr>"
    have lh: "late ?sh" by (simp add: late_def)
    have a: "steps clk s ?sh"
      using l by (intro internal_step) (simp_all add: internal_eq_def late_def)
    have b: "steps clk ?sh (snd (moofHunt clk ?sh chunk))"
      using True by (intro "4.IH"(1) lh) simp_all
    have "s1 = snd (moofHunt clk ?sh chunk)"
      using True pre by (auto simp: pre_def)
    with steps_trans [OF b a] show ?thesis by simp
  next
    case False
    then have "s1 = s" using pre by (auto simp: pre_def split: if_splits)
    then show ?thesis by (simp add: steps.stay)
  qed
  have l1: "late s1" by (rule steps_late [OF s1 l])
  show ?case
  proof (cases e)
    case (Some err)
    then have "findMoof clk s chunk = (Some err, s1)"
      using pre by (simp add: unf)
    with s1 show ?thesis by simp
  next
    case None
    show ?thesis
    proof (cases "readUInt32BE chunk")
      case rn: None
      have "findMoof clk s chunk = (Some RangeError, s1)"
        using pre None rn by (simp add: unf)
      with s1 show ?thesis by simp
    next
      case (Some n)
      let ?s2 = "s1\<lparr> this_moofLength := Some n \<rparr>"
      consider (less) "n < length chunk" | (eq) "n = length chunk" | (greater) "length chunk < n"
        by linarith
      then show ?thesis
      proof cases
        case less
        let ?s3 = "?s2\<lparr> this_moof := Some (slice_range chunk 0 n), this_parseChunk := FindMdat \<rparr>"
        have r: "findMoof clk s chunk = findMdat clk ?s3 (slice_from chunk n)"
          using pre None Some less by (simp add: unf)
        have l3: "late ?s3" by (simp add: late_def)
        have a: "steps clk s1 ?s3"
          using l1 by (intro internal_step) (simp_all add: internal_eq_def late_def)
        have b: "steps clk ?s3 (snd (findMdat clk ?s3 (slice_from chunk n)))"
          by (rule "4.IH"(2) [OF pre [symmetric, unfolded pre_def] None Some refl less l3])
        from steps_trans [OF steps_trans [OF b a] s1] r show ?thesis by simp
      next
        case eq
        let ?s3 = "?s2\<lparr> this_moof := Some chunk, this_parseChunk := FindMdat \<rparr>"
        have r: "findMoof clk s chunk = (None, ?s3)"
          using pre None Some eq by (simp add: unf)
        have l3: "late ?s3" by (simp add: late_def)
        have a: "steps clk s1 ?s3"
          using l1 by (intro internal_step) (simp_all add: internal_eq_def late_def)
        from steps_trans [OF a s1] r show ?thesis by simp
      next
        case greater
        have r: "findMoof clk s chunk = (Some MoofLengthGreater, ?s2)"
          using pre None Some greater by (simp add: unf)
        have a: "steps clk s1 ?s2"
          using l1 by (intro internal_step) (simp_all add: internal_eq_def late_def)
        from steps_trans [OF a s1] r show ?thesis by simp
      qed
    qed
  qed
next
  case (5 clk s chunk)
  note l = \<open>late s\<close>
  show ?case
  proof (cases "this_mdatBuffer s")
    case None
    show ?thesis
    proof (cases "bad_header chunk mdat_tag")
      case True
      with None show ?thesis by (simp add: findMdat.simps steps.stay)
    next
      case good: False
      show ?thesis
      proof (cases "readUInt32BE chunk")
        case rn: None
        with None good show ?thesis by (simp add: findMdat.simps steps.stay)
      next
        case (Some n)
        let ?s1 = "s\<lparr> this_mdatLength := Some n \<rparr>"
        have l1: "late ?s1" using l by (simp add: late_def)
        have a: "steps clk s ?s1"
          using l by (intro internal_step) (simp_all add: internal_eq_def late_def)
        consider (less) "n < length chunk" | (eq) "n = length chunk" | (greater) "length chunk < n"
          by linarith
        then show ?thesis
        proof cases
          case less
          have r: "findMdat clk s chunk = (Some MdatLengthLess, ?s1)"
            using None good Some less by (simp add: findMdat.simps)
          from a r show ?thesis by simp
        next
          case greater
          let ?s2 = "?s1\<lparr> this_mdatBuffer := Some [chunk], this_mdatBufferSize := Some (length chunk) \<rparr>"
          have r: "findMdat clk s chunk = (None, ?s2)"
            using None good Some greater by (simp add: findMdat.simps)
          have b: "steps clk ?s1 ?s2"
            using l1 by (intro internal_step) (simp_all add: internal_eq_def late_def)
          from steps_trans [OF b a] r show ?thesis by simp
        next
          case eq
          show ?thesis
          proof (cases "segment_blob ?s1 [chunk] (length chunk)")
            case bn: None
            have r: "findMdat clk s chunk = (Some TypeError, ?s1)"
              using None good Some eq bn by (simp add: findMdat.simps)
            from a r show ?thesis by simp
          next
            case blob: (Some seg)
            obtain e s2 where ss: "setSegment clk ?s1 seg = (e, s2)"
              by (cases "setSegment clk ?s1 seg") auto
            have b: "steps clk ?s1 s2" by (rule publish_step [OF l1 ss])
            have l2: "late s2" by (rule steps_late [OF b l1])
            show ?thesis
            proof (cases e)
              case en: None
              let ?s3 = "s2\<lparr> this_moof := None, this_moofLength := None,
                  this_mdatLength := None, this_parseChunk := FindMoof \<rparr>"
              have r: "findMdat clk s chunk = (None, ?s3)"
                using None good Some eq blob ss en by (simp add: findMdat.simps)
              have c: "steps clk s2 ?s3"
                using l2 by (intro internal_step) (simp_all add: internal_eq_def late_def)
              from steps_trans [OF steps_trans [OF c b] a] r show ?thesis by simp
            next
              case (Some err)
              have r: "findMdat clk s chunk = (Some err, s2)"
                using None good \<open>readUInt32BE chunk = Some n\<close> eq blob ss Some
                by (simp add: findMdat.simps)
              from steps_trans [OF b a] r show ?thesis by simp
            qed
          qed
        qed
      qed
    qed
  next
    case buf: (Some bufs)
    let ?s1 = "s\<lparr> this_mdatBuffer := Some (bufs @ [chunk]),
        this_mdatBufferSize := map_option (\<lambda>n. n + length chunk) (this_mdatBufferSize s) \<rparr>"
    have l1: "late ?s1" using l by (simp add: late_def)
    have a: "steps clk s ?s1"
      using l by (intro internal_step) (simp_all add: internal_eq_def late_def)
    show ?thesis
    proof (cases "this_mdatLength s")
      case None
      then have r: "findMdat clk s chunk = (None, ?s1)"
        using buf by (simp add: findMdat.simps)
      from a r show ?thesis by simp
    next
      case ml0: (Some mdatLength)
      show ?thesis
      proof (cases "this_mdatBufferSize s")
        case None
        then have r: "findMdat clk s chunk = (None, ?s1)"
          using buf ml0 by (simp add: findMdat.simps)
        from a r show ?thesis by simp
      next
        case bs0: (Some size0)
        let ?bs = "size0 + length chunk"
        have ml: "this_mdatLength ?s1 = Some mdatLength" using ml0 by simp
        have bs: "this_mdatBufferSize ?s1 = Some ?bs" using bs0 by simp
        consider (less) "?bs < mdatLength" | (eq) "mdatLength = ?bs"
          | (greater) "mdatLength < ?bs"
          by linarith
        then show ?thesis
        proof cases
          case less
          have r: "findMdat clk s chunk = (None, ?s1)"
            using buf ml0 bs0 less by (simp add: findMdat.simps)
          from a r show ?thesis by simp
        next
          case eq
          show ?thesis
          proof (cases "segment_blob ?s1 (bufs @ [chunk]) mdatLength")
            case None
            have r: "findMdat clk s chunk = (Some TypeError, ?s1)"
              using buf ml0 bs0 eq None by (simp add: findMdat.simps)
            from a r show ?thesis by simp
          next
            case blob: (Some seg)
            obtain e s2 where ss: "setSegment clk ?s1 seg = (e, s2)"
              by (cases "setSegment clk ?s1 seg") auto
            have b: "steps clk ?s1 s2" by (rule publish_step [OF l1 ss])
            have l2: "late s2" by (rule steps_late [OF b l1])
            show ?thesis
            proof (cases e)
              case None
              have r: "findMdat clk s chunk = (None, clear_mdat s2)"
                using buf ml0 bs0 eq blob ss None by (simp add: findMdat.simps)
              from steps_trans [OF steps_trans [OF clear_mdat_step [OF l2] b] a] r
              show ?thesis by simp
            next
              case (Some err)
              have r: "findMdat clk s chunk = (Some err, s2)"
                using buf ml0 bs0 eq blob ss Some by (simp add: findMdat.simps)
              from steps_trans [OF b a] r show ?thesis by simp
            qed
          qed
        next
          case greater
          then have ne: "mdatLength \<noteq> ?bs" by simp
          show ?thesis
          proof (cases "segment_blob ?s1 (bufs @ [chunk]) mdatLength")
            case None
            have r: "findMdat clk s chunk = (Some TypeError, ?s1)"
              using buf ml0 bs0 greater None by (simp add: findMdat.simps)
            from a r show ?thesis by simp
          next
            case blob: (Some seg)
            obtain e s2 where ss: "setSegment clk ?s1 seg = (e, s2)"
              by (cases "setSegment clk ?s1 seg") auto
            have b: "steps clk ?s1 s2" by (rule publish_step [OF l1 ss])
            have l2: "late s2" by (rule steps_late [OF b l1])
            show ?thesis
            proof (cases e)
              case None
              have r: "findMdat clk s chunk
                  = findMoof clk (clear_mdat s2) (slice_from chunk (?bs - mdatLength))"
                using buf ml0 bs0 greater blob ss None by (simp add: findMdat.simps)
              have c: "steps clk (clear_mdat s2)
                  (snd (findMoof clk (clear_mdat s2) (slice_from chunk (?bs - mdatLength))))"
                by (rule "5.IH" [OF buf refl ml bs ne greater blob ss [symmetric] None
                      late_clear_mdat])
              from steps_trans [OF steps_trans [OF steps_trans [OF c clear_mdat_step [OF l2]] b] a] r
              show ?thesis by simp
            next
              case (Some err)
              have r: "findMdat clk s chunk = (Some err, s2)"
                using buf ml0 bs0 greater blob ss Some by (simp add: findMdat.simps)
              from steps_trans [OF b a] r show ?thesis by simp
            qed
          qed
        qed
      qed
    qed
  qed
qed

lemma transform_steps: "steps clk s (snd (transform clk s chunk))"
proof (cases "this_parseChunk s")
  case FindFtyp
  then show ?thesis by (simp add: transform_def parser_steps(1) late_def)
next
  case FindMoov
  then show ?thesis by (simp add: transform_def parser_steps(2) late_def)
next
  case FindMoof
  then show ?thesis by (simp add: transform_def parser_steps(4) late_def)
next
  case FindMdat
  then show ?thesis by (simp add: transform_def parser_steps(5) late_def)
next
  case MoofHunt
  then show ?thesis by (simp add: transform_def parser_steps(3) late_def)
qed

lemma feed_steps: "steps clk s (feed clk s chunks)"
proof (induction chunks rule: rev_induct)
  case Nil
  show ?case by (simp add: feed_def steps.stay)
next
  case (snoc chunk chunks)
  have "feed clk s (chunks @ [chunk]) = snd (transform clk (feed clk s chunks) chunk)"
    by (simp add: feed_def)
  with steps_trans [OF transform_steps snoc.IH] show ?case by simp
qed

subsection \<open>The instance after any writes\<close>

lemma notify_eq: "notify s seg = s\<lparr> this_trace := this_trace s @ notifications s seg \<rparr>"
  by (simp add: notify_def notifications_def Let_def)

lemma buffer_push_eq:
  "buffer_push s seg = s\<lparr> this_bufferList :=
      map_option (\<lambda>l. shift_while (l @ [seg]) (this_bufferListSize s)) (this_bufferList s) \<rparr>"
  by (cases "this_bufferList s") (simp_all add: buffer_push_def)

lemma setSegment_no_hls:
  assumes "this_hlsList s = None"
  shows "setSegment clk s seg =
    (None, s\<lparr> this_segment := Some seg, this_duration := Some (segment_duration clk s),
               this_timestamp := Some (clk (clock_reads s)), clock_reads := Suc (clock_reads s),
               this_bufferList := map_option (\<lambda>l. shift_while (l @ [seg]) (this_bufferListSize s))
                  (this_bufferList s),
               this_trace := this_trace s @ notifications s seg \<rparr>)"
  using assms
  by (simp add: setSegment_def Let_def notify_eq buffer_push_eq segment_duration_def
      notifications_def)

lemma setSegment_hls:
  assumes "this_hlsList s = Some l" and "this_sequence s = Some k" and "0 < this_hlsListSize s"
  shows "setSegment clk s seg =
    (None, s\<lparr> this_segment := Some seg, this_duration := Some (segment_duration clk s),
               this_timestamp := Some (clk (clock_reads s)), clock_reads := Suc (clock_reads s),
               this_hlsList := Some (shift_while
                  (l @ [\<lparr> sequence = number_string k, segment = seg,
                          duration = segment_duration clk s \<rparr>]) (this_hlsListSize s)),
               this_sequence := Some (Suc k),
               this_m3u8 := Some (m3u8_head (round_string (segment_duration clk s))
                  (sequence (hd (shift_while
                  (l @ [\<lparr> sequence = number_string k, segment = seg,
                          duration = segment_duration clk s \<rparr>]) (this_hlsListSize s))))
                  (base_string s)
                 @ concat (map (m3u8_entry (base_string s)) (shift_while
                  (l @ [\<lparr> sequence = number_string k, segment = seg,
                          duration = segment_duration clk s \<rparr>]) (this_hlsListSize s)))),
               this_bufferList := map_option (\<lambda>l. shift_while (l @ [seg]) (this_bufferListSize s))
                  (this_bufferList s),
               this_trace := this_trace s @ notifications s seg \<rparr>)"
proof -
  let ?l1 = "shift_while (l @ [\<lparr> sequence = number_string k, segment = seg,
                          duration = segment_duration clk s \<rparr>]) (this_hlsListSize s)"
  have ne: "?l1 \<noteq> []" by (rule shift_while_snoc_nonempty [OF assms(3)])
  then obtain e es where l1: "?l1 = e # es" by (cases ?l1) auto
  show ?thesis
    using assms(1,2) l1
    by (simp add: setSegment_def Let_def notify_eq buffer_push_eq segment_duration_def
      notifications_def next_sequence_def base_string_def)
qed


lemma ring_entries_snoc:
  "map ring_entry (zip [0..<length (pubs @ [p])] (pubs @ [p]))
     = map ring_entry (zip [0..<length pubs] pubs) @ [ring_entry (length pubs, p)]"
  by simp

lemma ring_of_snoc:
  assumes "0 < n"
  shows "shift_while (ring_of n pubs @ [ring_entry (length pubs, p)]) n = ring_of n (pubs @ [p])"
proof -
  let ?X = "map ring_entry (zip [0..<length pubs] pubs)"
  let ?y = "ring_entry (length pubs, p)"
  have lx: "length ?X = length pubs" by simp
  show ?thesis
  proof (cases "length pubs < n")
    case True
    then show ?thesis
      unfolding ring_of_def ring_entries_snoc shift_while_drop by simp
  next
    case False
    then have ge: "n \<le> length pubs" by simp
    have l1: "length (drop (length pubs - n) ?X) = n"
      using ge by simp
    have "drop (length (drop (length pubs - n) ?X @ [?y]) - n) (drop (length pubs - n) ?X @ [?y])
        = drop 1 (drop (length pubs - n) ?X @ [?y])"
      using l1 by simp
    also have "\<dots> = drop 1 (drop (length pubs - n) ?X) @ [?y]"
      using l1 assms by simp
    also have "\<dots> = drop (Suc (length pubs - n)) ?X @ [?y]"
      by simp
    also have "\<dots> = drop (length (pubs @ [p]) - n) (?X @ [?y])"
      using ge assms by (simp add: Suc_diff_le)
    finally show ?thesis
      unfolding ring_of_def ring_entries_snoc shift_while_drop .
  qed
qed

lemma ring_of_snoc_last:
  assumes "0 < n"
  shows "ring_of n (pubs @ [p]) \<noteq> [] \<and> last (ring_of n (pubs @ [p])) = ring_entry (length pubs, p)"
proof -
  let ?X = "map ring_entry (zip [0..<length pubs] pubs)"
  have "ring_of n (pubs @ [p]) = drop (Suc (length pubs) - n) ?X @ [ring_entry (length pubs, p)]"
    unfolding ring_of_def ring_entries_snoc using assms by simp
  then show ?thesis by simp
qed

lemma internal_eq_cases:
  assumes "internal_eq s s'"
  obtains pc a b c d e f g where
    "s' = s\<lparr> this_parseChunk := pc, this_ftyp := a, this_ftypLength := b, this_moof := c,
             this_moofLength := d, this_mdatBuffer := e, this_mdatLength := f,
             this_mdatBufferSize := g \<rparr>"
  using assms unfolding internal_eq_def by blast

lemma internal_eq_early_inv: "internal_eq s s' \<Longrightarrow> early_inv s' = early_inv s"
  by (erule internal_eq_cases) (simp add: early_inv_def split: option.split)

lemma internal_eq_late_inv: "internal_eq s s' \<Longrightarrow> late_inv s' pubs = late_inv s pubs"
  by (erule internal_eq_cases)
    (simp add: late_inv_def notifications_def base_string_def split: option.split)

lemma parseMoov_fail_eq:
  "parseMoov clk s v = (Some e, s') \<Longrightarrow> s' = s\<lparr> this_initialization := Some v \<rparr>"
  by (auto simp: parseMoov_def Let_def split: option.splits)

lemma parseMoov_ok_eq:
  assumes "parseMoov clk s v = (None, s')"
  shows "s' = s\<lparr> this_initialization := Some v, this_mime := this_mime s',
      this_timestamp := Some (clk (clock_reads s)), clock_reads := Suc (clock_reads s),
      this_m3u8 := (case this_hlsList s of None \<Rightarrow> this_m3u8 s
                    | Some l \<Rightarrow> Some (m3u8_head ''0'' ''0'' (base_string s))),
      this_trace := this_trace s @ [Initialized] \<rparr>"
proof (cases "indexOf v avcC_tag")
  case None
  with assms show ?thesis by (simp add: parseMoov_def Let_def)
next
  case (Some i)
  show ?thesis
  proof (cases "this_hlsList s")
    case None
    with assms Some show ?thesis
      by (auto simp: parseMoov_def Let_def)
  next
    case hl: (Some l)
    with assms Some show ?thesis
      by (auto simp: parseMoov_def Let_def base_string_def)
  qed
qed

lemma parseMoov_ok_inv:
  assumes "early_inv s" and "parseMoov clk s v = (None, s')"
  shows "late_inv s' []"
proof -
  note eq = parseMoov_ok_eq [OF assms(2)]
  show ?thesis
  proof (cases "this_hlsList s")
    case None
    with assms(1) show ?thesis
      by (subst eq) (simp add: early_inv_def late_inv_def)
  next
    case (Some l)
    with assms(1) show ?thesis
      by (subst eq) (simp add: early_inv_def late_inv_def ring_of_def base_string_def)
  qed
qed

lemma notifications_cong:
  "pipesCount s' = pipesCount s \<Longrightarrow> has_callback s' = has_callback s
   \<Longrightarrow> segmentListeners s' = segmentListeners s
   \<Longrightarrow> notifications s' = notifications s"
  by (rule ext) (simp add: notifications_def)

lemma setSegment_inv:
  assumes "late_inv s pubs" and "setSegment clk s seg = (e, s')"
  shows "late_inv s' (pubs @ [(seg, segment_duration clk s)])"
proof (cases "this_hlsList s")
  case None
  from assms(2) have s': "s' = snd (setSegment clk s seg)" by simp
  have n: "notifications s' = notifications s"
    unfolding s' setSegment_no_hls [OF None] by (intro notifications_cong) simp_all
  have t: "this_trace s' = this_trace s @ notifications s seg"
    and g: "this_segment s' = Some seg"
    and d: "this_duration s' = Some (segment_duration clk s)"
    and h: "this_hlsList s' = None"
    and q: "this_sequence s' = this_sequence s"
    and m: "this_m3u8 s' = this_m3u8 s"
    unfolding s' setSegment_no_hls [OF None] by (simp_all add: None)
  from assms(1) None show ?thesis
    by (simp add: late_inv_def n t g d h q m)
next
  case (Some l)
  from assms(1) Some have pos: "0 < this_hlsListSize s"
    and q0: "this_sequence s = Some (length pubs)"
    and l: "l = ring_of (this_hlsListSize s) pubs"
    by (simp_all add: late_inv_def)
  let ?p = "(seg, segment_duration clk s)"
  let ?l1 = "ring_of (this_hlsListSize s) (pubs @ [?p])"
  have entry: "\<lparr> sequence = number_string (length pubs), segment = seg,
      duration = segment_duration clk s \<rparr> = ring_entry (length pubs, ?p)"
    by (simp add: ring_entry_def)
  have ring: "shift_while (l @ [\<lparr> sequence = number_string (length pubs), segment = seg,
      duration = segment_duration clk s \<rparr>]) (this_hlsListSize s) = ?l1"
    unfolding entry l by (rule ring_of_snoc [OF pos])
  have lst: "?l1 \<noteq> []" "last ?l1 = ring_entry (length pubs, ?p)"
    using ring_of_snoc_last [OF pos, of pubs ?p] by simp_all
  from assms(2) have s': "s' = snd (setSegment clk s seg)" by simp
  note unf = setSegment_hls [OF Some q0 pos, of clk seg, unfolded ring]
  have n: "notifications s' = notifications s"
    unfolding s' unf by (intro notifications_cong) simp_all
  have t: "this_trace s' = this_trace s @ notifications s seg"
    and g: "this_segment s' = Some seg"
    and d: "this_duration s' = Some (segment_duration clk s)"
    and h: "this_hlsList s' = Some ?l1"
    and z: "this_hlsListSize s' = this_hlsListSize s"
    and q: "this_sequence s' = Some (Suc (length pubs))"
    and b: "base_string s' = base_string s"
    and m: "this_m3u8 s' = Some (m3u8_head (round_string (segment_duration clk s))
                  (sequence (hd ?l1)) (base_string s)
                 @ concat (map (m3u8_entry (base_string s)) ?l1))"
    unfolding s' unf by (simp_all add: base_string_def)
  have pl: "this_m3u8 s' = Some (playlist_of (base_string s) ?l1)"
    unfolding m playlist_of_def lst(2) by (simp add: ring_entry_def)
  from assms(1) pos show ?thesis
    by (simp add: late_inv_def n t g d h z q b pl)
qed

lemma late_setSegment: "setSegment clk s seg = (e, s') \<Longrightarrow> late s' = late s"
  using setSegment_parseChunk [of clk s seg] by (simp add: late_def)

lemma late_parseMoov: "parseMoov clk s v = (e, s') \<Longrightarrow> late s' = late s"
  using parseMoov_parseChunk [of clk s v] by (simp add: late_def)

lemma steps_session_inv: "steps clk s s' \<Longrightarrow> session_inv s \<Longrightarrow> session_inv s'"
proof (induction rule: steps.induct)
  case (stay s)
  then show ?case .
next
  case (internal s s1 s2)
  then have "session_inv s1" by simp
  with internal.hyps(2,3) show ?case
    by (simp add: session_inv_def internal_eq_early_inv internal_eq_late_inv)
next
  case (init_fail s s1 v e s2)
  then have i: "session_inv s1" by simp
  have eq: "s2 = s1\<lparr> this_initialization := Some v \<rparr>"
    by (rule parseMoov_fail_eq [OF init_fail.hyps(3)])
  have "late s2 = late s1" by (rule late_parseMoov [OF init_fail.hyps(3)])
  with i init_fail.hyps(2) show ?case
    by (simp add: session_inv_def eq early_inv_def split: option.splits)
next
  case (init_ok s s1 v s2 s3)
  then have "early_inv s1" by (simp add: session_inv_def)
  then have "late_inv s2 []" by (rule parseMoov_ok_inv [OF _ init_ok.hyps(3)])
  then have "late_inv s3 []" using internal_eq_late_inv [OF init_ok.hyps(4)] by simp
  with init_ok.hyps(5) show ?case by (auto simp: session_inv_def)
next
  case (publish s s1 seg e s2)
  then obtain pubs where "late_inv s1 pubs" by (auto simp: session_inv_def)
  then have "late_inv s2 (pubs @ [(seg, segment_duration clk s1)])"
    by (rule setSegment_inv [OF _ publish.hyps(3)])
  moreover have "late s2" using late_setSegment [OF publish.hyps(3)] publish.hyps(2) by simp
  ultimately show ?case by (auto simp: session_inv_def)
qed

lemma constructor_inv: "session_inv (constructor opts cb pipes listeners)"
  by (simp add: session_inv_def late_def early_inv_def constructor_def fresh_def Let_def
      clamp_hlsListSize_def split: option.split)

lemma feed_inv: "session_inv (feed clk (constructor opts cb pipes listeners) chunks)"
  by (rule steps_session_inv [OF feed_steps constructor_inv])

subsection \<open>Parsing does not depend on the HLS slots\<close>

lemma strip_fields [simp]:
  "this_parseChunk (strip_hls s) = this_parseChunk s"
  "this_segment (strip_hls s) = this_segment s"
  "this_ftyp (strip_hls s) = this_ftyp s"
  "this_ftypLength (strip_hls s) = this_ftypLength s"
  "this_moof (strip_hls s) = this_moof s"
  "this_moofLength (strip_hls s) = this_moofLength s"
  "this_mdatBuffer (strip_hls s) = this_mdatBuffer s"
  "this_mdatLength (strip_hls s) = this_mdatLength s"
  "this_mdatBufferSize (strip_hls s) = this_mdatBufferSize s"
  by (simp_all add: strip_hls_def)

lemma strip_updates [simp]:
  "strip_hls (s\<lparr> this_parseChunk := pc \<rparr>) = (strip_hls s)\<lparr> this_parseChunk := pc \<rparr>"
  "strip_hls (s\<lparr> this_ftyp := a \<rparr>) = (strip_hls s)\<lparr> this_ftyp := a \<rparr>"
  "strip_hls (s\<lparr> this_ftypLength := b \<rparr>) = (strip_hls s)\<lparr> this_ftypLength := b \<rparr>"
  "strip_hls (s\<lparr> this_moof := c \<rparr>) = (strip_hls s)\<lparr> this_moof := c \<rparr>"
  "strip_hls (s\<lparr> this_moofLength := d \<rparr>) = (strip_hls s)\<lparr> this_moofLength := d \<rparr>"
  "strip_hls (s\<lparr> this_mdatBuffer := e \<rparr>) = (strip_hls s)\<lparr> this_mdatBuffer := e \<rparr>"
  "strip_hls (s\<lparr> this_mdatLength := f \<rparr>) = (strip_hls s)\<lparr> this_mdatLength := f \<rparr>"
  "strip_hls (s\<lparr> this_mdatBufferSize := g \<rparr>) = (strip_hls s)\<lparr> this_mdatBufferSize := g \<rparr>"
  by (simp_all add: strip_hls_def)

lemma hls_sized_updates [simp]:
  "hls_sized (s\<lparr> this_parseChunk := pc \<rparr>) = hls_sized s"
  "hls_sized (s\<lparr> this_ftyp := a \<rparr>) = hls_sized s"
  "hls_sized (s\<lparr> this_ftypLength := b \<rparr>) = hls_sized s"
  "hls_sized (s\<lparr> this_moof := c \<rparr>) = hls_sized s"
  "hls_sized (s\<lparr> this_moofLength := d \<rparr>) = hls_sized s"
  "hls_sized (s\<lparr> this_mdatBuffer := e \<rparr>) = hls_sized s"
  "hls_sized (s\<lparr> this_mdatLength := f \<rparr>) = hls_sized s"
  "hls_sized (s\<lparr> this_mdatBufferSize := g \<rparr>) = hls_sized s"
  by (simp_all add: hls_sized_def split: option.split)

lemma parseMoov_strip:
  "parseMoov clk (strip_hls s) v = (fst (parseMoov clk s v), strip_hls (snd (parseMoov clk s v)))"
  by (cases "this_hlsList s")
    (simp_all add: parseMoov_def Let_def strip_hls_def split: option.split)

lemma parseMoov_hls_sized: "hls_sized (snd (parseMoov clk s v)) = hls_sized s"
  by (cases "this_hlsList s")
    (simp_all add: parseMoov_def Let_def hls_sized_def split: option.split)

lemma strip_notifications [simp]: "notifications (strip_hls s) = notifications s"
  by (rule notifications_cong) (simp_all add: strip_hls_def)

lemma strip_segment_duration [simp]: "segment_duration clk (strip_hls s) = segment_duration clk s"
  by (simp add: segment_duration_def strip_hls_def split: option.split)

lemma strip_public_fields [simp]:
  "this_trace (strip_hls s) = this_trace s"
  "clock_reads (strip_hls s) = clock_reads s"
  "this_bufferList (strip_hls s) = this_bufferList s"
  "this_bufferListSize (strip_hls s) = this_bufferListSize s"
  "this_hlsList (strip_hls s) = None"
  by (simp_all add: strip_hls_def)

lemma setSegment_strip:
  assumes "hls_sized s"
  shows "setSegment clk (strip_hls s) seg
    = (fst (setSegment clk s seg), strip_hls (snd (setSegment clk s seg)))"
proof (cases "this_hlsList s")
  case None
  have n: "this_hlsList (strip_hls s) = None" by simp
  show ?thesis
    unfolding setSegment_no_hls [OF n] setSegment_no_hls [OF None]
    by (simp, simp add: strip_hls_def)
next
  case (Some l)
  with assms obtain k where q: "this_sequence s = Some k" and pos: "0 < this_hlsListSize s"
    by (auto simp: hls_sized_def)
  have n: "this_hlsList (strip_hls s) = None" by simp
  show ?thesis
    unfolding setSegment_no_hls [OF n] setSegment_hls [OF Some q pos]
    by (simp, simp add: strip_hls_def)
qed

lemma setSegment_hls_sized:
  assumes "hls_sized s"
  shows "hls_sized (snd (setSegment clk s seg))"
proof (cases "this_hlsList s")
  case None
  then show ?thesis
    unfolding setSegment_no_hls [OF None] by (simp add: hls_sized_def)
next
  case (Some l)
  with assms obtain k where q: "this_sequence s = Some k" and pos: "0 < this_hlsListSize s"
    by (auto simp: hls_sized_def)
  show ?thesis
    unfolding setSegment_hls [OF Some q pos] using pos by (simp add: hls_sized_def)
qed

lemma strip_blobs [simp]:
  "init_blob (strip_hls s) c n = init_blob s c n"
  "segment_blob (strip_hls s) bufs n = segment_blob s bufs n"
  by (simp_all add: init_blob_def segment_blob_def)

lemma segment_blob_updates [simp]:
  "segment_blob (s\<lparr> this_mdatLength := x \<rparr>) = segment_blob s"
  "segment_blob (s\<lparr> this_mdatBuffer := y \<rparr>) = segment_blob s"
  "segment_blob (s\<lparr> this_mdatBufferSize := z \<rparr>) = segment_blob s"
  by (simp_all add: segment_blob_def fun_eq_iff)

lemma strip_clear_mdat [simp]: "strip_hls (clear_mdat s) = clear_mdat (strip_hls s)"
  by (simp add: clear_mdat_def)

lemma hls_sized_clear_mdat [simp]: "hls_sized (clear_mdat s) = hls_sized s"
  by (simp add: clear_mdat_def)

lemma setSegment_commute:
  assumes "hls_sized s" and "setSegment clk s seg = (e, s')"
  shows "setSegment clk (strip_hls s) seg = (e, strip_hls s')" and "hls_sized s'"
  using setSegment_strip [OF assms(1), of clk seg] setSegment_hls_sized [OF assms(1), of clk seg]
    assms(2)
  by simp_all

lemma commutesI:
  "(hls_sized s \<Longrightarrow> rN = (fst r, strip_hls (snd r))) \<Longrightarrow> (hls_sized s \<Longrightarrow> hls_sized (snd r))
   \<Longrightarrow> commutes s r rN"
  by (simp add: commutes_def)

lemma parser_strip:
  "commutes s (findFtyp clk s c) (findFtyp clk (strip_hls s) c)"
  "commutes s (findMoov clk s c) (findMoov clk (strip_hls s) c)"
  "commutes s (moofHunt clk s c) (moofHunt clk (strip_hls s) c)"
  "commutes s (findMoof clk s c) (findMoof clk (strip_hls s) c)"
  "commutes s (findMdat clk s c) (findMdat clk (strip_hls s) c)"
proof (induction clk s c and clk s c and clk s c and clk s c and clk s c
    rule: findFtyp_findMoov_moofHunt_findMoof_findMdat.induct)
  case (1 clk s chunk)
  show ?case
  proof (cases "\<not> bad_header chunk ftyp_tag \<and> (\<exists>n. readUInt32BE chunk = Some n \<and> n < length chunk)")
    case True
    then obtain n where g: "\<not> bad_header chunk ftyp_tag" and r: "readUInt32BE chunk = Some n"
      and l: "n < length chunk" by blast
    let ?s2 = "s\<lparr> this_ftypLength := Some n, this_ftyp := Some (slice_range chunk 0 n),
                  this_parseChunk := FindMoov \<rparr>"
    have ih: "commutes ?s2 (findMoov clk ?s2 (slice_from chunk n))
        (findMoov clk (strip_hls ?s2) (slice_from chunk n))"
      by (rule "1.IH" [OF g r refl l])
    show ?thesis
      using g r l ih
      by (simp add: commutes_def findFtyp.simps [of clk s chunk]
          findFtyp.simps [of clk "strip_hls s" chunk])
  next
    case False
    then show ?thesis
      by (auto simp: commutes_def Let_def findFtyp.simps [of clk s chunk]
          findFtyp.simps [of clk "strip_hls s" chunk] split: option.split)
  qed
next
  case (2 clk s chunk)
  show ?case
  proof (cases "bad_header chunk moov_tag")
    case True
    then show ?thesis
      by (simp add: commutes_def findMoov.simps [of clk s chunk]
          findMoov.simps [of clk "strip_hls s" chunk])
  next
    case g: False
    show ?thesis
    proof (cases "readUInt32BE chunk")
      case None
      with g show ?thesis
        by (simp add: commutes_def findMoov.simps [of clk s chunk]
            findMoov.simps [of clk "strip_hls s" chunk])
    next
      case r: (Some n)
      show ?thesis
      proof (cases "init_blob s chunk n")
        case None
        with g r show ?thesis
          by (auto simp: commutes_def findMoov.simps [of clk s chunk]
              findMoov.simps [of clk "strip_hls s" chunk])
      next
        case b: (Some blob)
        obtain e1 s1 where p: "parseMoov clk s blob = (e1, s1)"
          by (cases "parseMoov clk s blob") auto
        have pN: "parseMoov clk (strip_hls s) blob = (e1, strip_hls s1)"
          using parseMoov_strip [of clk s blob] p by simp
        have ok1: "hls_sized s1 = hls_sized s"
          using parseMoov_hls_sized [of clk s blob] p by simp
        show ?thesis
        proof (cases "e1 = None \<and> n < length chunk")
          case True
          then have e: "e1 = None" and l: "n < length chunk" by simp_all
          let ?s3 = "s1\<lparr> this_ftyp := None, this_ftypLength := None, this_parseChunk := FindMoof \<rparr>"
          have ih: "commutes ?s3 (findMoof clk ?s3 (slice_from chunk n))
              (findMoof clk (strip_hls ?s3) (slice_from chunk n))"
            by (rule "2.IH" [OF g r l b p [symmetric] e])
          show ?thesis
            using g r l b p pN e ih ok1
            by (simp add: commutes_def findMoov.simps [of clk s chunk]
                findMoov.simps [of clk "strip_hls s" chunk])
        next
          case False
          then show ?thesis
            using g r b p pN ok1
            by (cases e1)
              (auto simp: commutes_def findMoov.simps [of clk s chunk]
                findMoov.simps [of clk "strip_hls s" chunk])
        qed
      qed
    qed
  qed
next
  case (3 clk s chunk)
  show ?case
  proof (cases "\<exists>i. indexOf chunk moof_tag = Some i \<and> 3 < i")
    case True
    then obtain i where f: "indexOf chunk moof_tag = Some i" and l: "3 < i" by blast
    let ?s1 = "s\<lparr> this_parseChunk := FindMoof \<rparr>"
    have ih: "commutes ?s1 (findMoof clk ?s1 (slice_from chunk (i - 4)))
        (findMoof clk (strip_hls ?s1) (slice_from chunk (i - 4)))"
      by (rule "3.IH" [OF f l])
    show ?thesis
      using f l ih
      by (simp add: commutes_def moofHunt.simps [of clk s chunk]
          moofHunt.simps [of clk "strip_hls s" chunk])
  next
    case False
    then show ?thesis
      by (auto simp: commutes_def moofHunt.simps [of clk s chunk]
          moofHunt.simps [of clk "strip_hls s" chunk] split: option.split)
  qed
next
  case (4 clk s chunk)
  define pre where "pre =
    (if bad_header chunk moof_tag
     then if this_segment s = None then (Some ImmediatelyFailedMoof, s)
          else moofHunt clk (s\<lparr>this_parseChunk := MoofHunt\<rparr>) chunk
     else (None, s))"
  define preN where "preN =
    (if bad_header chunk moof_tag
     then if this_segment (strip_hls s) = None then (Some ImmediatelyFailedMoof, strip_hls s)
          else moofHunt clk ((strip_hls s)\<lparr>this_parseChunk := MoofHunt\<rparr>) chunk
     else (None, strip_hls s))"
  obtain e s1 where pre: "pre = (e, s1)" by (cases pre) auto
  have c1: "commutes s pre preN"
  proof (cases "bad_header chunk moof_tag \<and> this_segment s \<noteq> None")
    case True
    let ?sh = "s\<lparr>this_parseChunk := MoofHunt\<rparr>"
    have "commutes ?sh (moofHunt clk ?sh chunk) (moofHunt clk (strip_hls ?sh) chunk)"
      using True by (intro "4.IH"(1)) simp_all
    with True show ?thesis by (auto simp: commutes_def pre_def preN_def)
  next
    case False
    then show ?thesis by (auto simp: commutes_def pre_def preN_def)
  qed
  have unf: "findMoof clk s chunk =
      (case pre of
        (Some e, s1) \<Rightarrow> (Some e, s1)
      | (None, s1) \<Rightarrow>
          (case readUInt32BE chunk of
             None \<Rightarrow> (Some RangeError, s1)
           | Some n \<Rightarrow>
               let s2 = s1\<lparr> this_moofLength := Some n \<rparr> in
               if n < length chunk then
                 findMdat clk (s2\<lparr> this_moof := Some (slice_range chunk 0 n), this_parseChunk := FindMdat \<rparr>)
                   (slice_from chunk n)
               else if n = length chunk then
                 (None, s2\<lparr> this_moof := Some chunk, this_parseChunk := FindMdat \<rparr>)
               else (Some MoofLengthGreater, s2)))"
    unfolding pre_def by (rule findMoof.simps)
  have unfN: "findMoof clk (strip_hls s) chunk =
      (case preN of
        (Some e, s1) \<Rightarrow> (Some e, s1)
      | (None, s1) \<Rightarrow>
          (case readUInt32BE chunk of
             None \<Rightarrow> (Some RangeError, s1)
           | Some n \<Rightarrow>
               let s2 = s1\<lparr> this_moofLength := Some n \<rparr> in
               if n < length chunk then
                 findMdat clk (s2\<lparr> this_moof := Some (slice_range chunk 0 n), this_parseChunk := FindMdat \<rparr>)
                   (slice_from chunk n)
               else if n = length chunk then
                 (None, s2\<lparr> this_moof := Some chunk, this_parseChunk := FindMdat \<rparr>)
               else (Some MoofLengthGreater, s2)))"
    unfolding preN_def by (rule findMoof.simps)
  show ?case
  proof (rule commutesI)
    assume ok: "hls_sized s"
    with c1 pre have preN: "preN = (e, strip_hls s1)" and ok1: "hls_sized s1"
      by (simp_all add: commutes_def)
    show "findMoof clk (strip_hls s) chunk
        = (fst (findMoof clk s chunk), strip_hls (snd (findMoof clk s chunk)))"
    proof (cases "e = None \<and> (\<exists>n. readUInt32BE chunk = Some n \<and> n < length chunk)")
      case True
      then obtain n where e: "e = None" and r: "readUInt32BE chunk = Some n"
        and l: "n < length chunk" by blast
      let ?s3 = "s1\<lparr> this_moofLength := Some n, this_moof := Some (slice_range chunk 0 n),
          this_parseChunk := FindMdat \<rparr>"
      have ih: "commutes ?s3 (findMdat clk ?s3 (slice_from chunk n))
          (findMdat clk (strip_hls ?s3) (slice_from chunk n))"
        by (rule "4.IH"(2) [OF pre [symmetric, unfolded pre_def] e r refl l])
      show ?thesis
        using e r l ih ok1 by (simp add: unf unfN pre preN commutes_def)
    next
      case False
      then show ?thesis
        by (cases e) (auto simp: unf unfN pre preN Let_def split: option.split)
    qed
    show "hls_sized (snd (findMoof clk s chunk))"
    proof (cases "e = None \<and> (\<exists>n. readUInt32BE chunk = Some n \<and> n < length chunk)")
      case True
      then obtain n where e: "e = None" and r: "readUInt32BE chunk = Some n"
        and l: "n < length chunk" by blast
      let ?s3 = "s1\<lparr> this_moofLength := Some n, this_moof := Some (slice_range chunk 0 n),
          this_parseChunk := FindMdat \<rparr>"
      have ih: "commutes ?s3 (findMdat clk ?s3 (slice_from chunk n))
          (findMdat clk (strip_hls ?s3) (slice_from chunk n))"
        by (rule "4.IH"(2) [OF pre [symmetric, unfolded pre_def] e r refl l])
      show ?thesis
        using e r l ih ok1 by (simp add: unf pre commutes_def)
    next
      case False
      then show ?thesis
        using ok1 by (cases e) (auto simp: unf pre Let_def split: option.split)
    qed
  qed
next
  case (5 clk s chunk)
  note unf = findMdat.simps [of clk s chunk] findMdat.simps [of clk "strip_hls s" chunk]
  show ?case
  proof (cases "this_mdatBuffer s")
    case None
    show ?thesis
    proof (cases "bad_header chunk mdat_tag")
      case True
      with None show ?thesis by (simp add: commutes_def unf Let_def)
    next
      case g: False
      show ?thesis
      proof (cases "readUInt32BE chunk")
        case rn: None
        with None g show ?thesis by (simp add: commutes_def unf Let_def)
      next
        case r: (Some n)
        let ?s1 = "s\<lparr> this_mdatLength := Some n \<rparr>"
        show ?thesis
        proof (cases "n = length chunk")
          case False
          with None g r show ?thesis by (auto simp: commutes_def unf Let_def)
        next
          case eq: True
          show ?thesis
          proof (cases "segment_blob ?s1 [chunk] (length chunk)")
            case bn: None
            with None g r eq show ?thesis by (auto simp: commutes_def unf Let_def)
          next
            case b: (Some seg)
            obtain e2 s2 where ss: "setSegment clk ?s1 seg = (e2, s2)"
              by (cases "setSegment clk ?s1 seg") auto
            show ?thesis
            proof (rule commutesI)
              assume ok: "hls_sized s"
              then have ok1: "hls_sized ?s1" by simp
              note c = setSegment_commute [OF ok1 ss]
              from c(1) have ssN: "setSegment clk ((strip_hls s)\<lparr> this_mdatLength := Some n \<rparr>) seg
                  = (e2, strip_hls s2)" by simp
              have bN: "segment_blob ((strip_hls s)\<lparr> this_mdatLength := Some n \<rparr>) [chunk]
                  (length chunk) = Some seg"
                using b strip_blobs(2) [of ?s1] by simp
              show "findMdat clk (strip_hls s) chunk
                  = (fst (findMdat clk s chunk), strip_hls (snd (findMdat clk s chunk)))"
                using None g r eq b bN ss ssN by (cases e2) (simp_all add: unf Let_def)
              show "hls_sized (snd (findMdat clk s chunk))"
                using None g r eq b ss c(2) by (cases e2) (simp_all add: unf Let_def)
            qed
          qed
        qed
      qed
    qed
  next
    case buf: (Some bufs)
    let ?s1 = "s\<lparr> this_mdatBuffer := Some (bufs @ [chunk]),
        this_mdatBufferSize := map_option (\<lambda>n. n + length chunk) (this_mdatBufferSize s) \<rparr>"
    let ?sN = "(strip_hls s)\<lparr> this_mdatBuffer := Some (bufs @ [chunk]),
        this_mdatBufferSize := map_option (\<lambda>n. n + length chunk) (this_mdatBufferSize s) \<rparr>"
    have sN: "strip_hls ?s1 = ?sN" by simp
    show ?thesis
    proof (cases "this_mdatLength s")
      case None
      with buf show ?thesis by (simp add: commutes_def unf Let_def)
    next
      case ml0: (Some mdatLength)
      show ?thesis
      proof (cases "this_mdatBufferSize s")
        case None
        with buf ml0 show ?thesis by (simp add: commutes_def unf Let_def)
      next
        case bs0: (Some size0)
        let ?bs = "size0 + length chunk"
        have ml: "this_mdatLength ?s1 = Some mdatLength" using ml0 by simp
        have bs: "this_mdatBufferSize ?s1 = Some ?bs" using bs0 by simp
        show ?thesis
        proof (cases "?bs < mdatLength")
          case True
          with buf ml0 bs0 show ?thesis by (simp add: commutes_def unf Let_def)
        next
          case ge: False
          show ?thesis
          proof (cases "segment_blob ?s1 (bufs @ [chunk]) mdatLength")
            case None
            then have "segment_blob ?sN (bufs @ [chunk]) mdatLength = None"
              using strip_blobs(2) [of ?s1] by simp
            with buf ml0 bs0 ge None show ?thesis by (auto simp: commutes_def unf Let_def)
          next
            case b: (Some seg)
            then have bN: "segment_blob ?sN (bufs @ [chunk]) mdatLength = Some seg"
              using strip_blobs(2) [of ?s1] by simp
            obtain e2 s2 where ss: "setSegment clk ?s1 seg = (e2, s2)"
              by (cases "setSegment clk ?s1 seg") auto
            show ?thesis
            proof (rule commutesI)
              assume ok: "hls_sized s"
              then have ok1: "hls_sized ?s1" by simp
              note c = setSegment_commute [OF ok1 ss]
              from c(1) have ssN: "setSegment clk ?sN seg = (e2, strip_hls s2)"
                by simp
              show "findMdat clk (strip_hls s) chunk
                  = (fst (findMdat clk s chunk), strip_hls (snd (findMdat clk s chunk)))"
              proof (cases "e2 = None \<and> mdatLength < ?bs")
                case True
                then have e: "e2 = None" and gr: "mdatLength < ?bs" by simp_all
                then have ne: "mdatLength \<noteq> ?bs" by simp
                have ih: "commutes (clear_mdat s2)
                    (findMoof clk (clear_mdat s2) (slice_from chunk (?bs - mdatLength)))
                    (findMoof clk (strip_hls (clear_mdat s2)) (slice_from chunk (?bs - mdatLength)))"
                  by (rule "5.IH" [OF buf refl ml bs ne gr b ss [symmetric] e])
                show ?thesis
                  using buf ml0 bs0 gr b bN ss ssN e ih c(2)
                  by (simp add: unf commutes_def Let_def)
              next
                case False
                then show ?thesis
                  using buf ml0 bs0 ge b bN ss ssN
                  by (cases e2) (auto simp: unf Let_def)
              qed
              show "hls_sized (snd (findMdat clk s chunk))"
              proof (cases "e2 = None \<and> mdatLength < ?bs")
                case True
                then have e: "e2 = None" and gr: "mdatLength < ?bs" by simp_all
                then have ne: "mdatLength \<noteq> ?bs" by simp
                have ih: "commutes (clear_mdat s2)
                    (findMoof clk (clear_mdat s2) (slice_from chunk (?bs - mdatLength)))
                    (findMoof clk (strip_hls (clear_mdat s2)) (slice_from chunk (?bs - mdatLength)))"
                  by (rule "5.IH" [OF buf refl ml bs ne gr b ss [symmetric] e])
                show ?thesis
                  using buf ml0 bs0 gr b ss e ih c(2)
                  by (simp add: unf commutes_def Let_def)
              next
                case False
                then show ?thesis
                  using buf ml0 bs0 ge b ss c(2)
                  by (cases e2) (auto simp: unf Let_def)
              qed
            qed
          qed
        qed
      qed
    qed
  qed
qed


lemma transform_strip:
  "commutes s (transform clk s c) (transform clk (strip_hls s) c)"
  by (cases "this_parseChunk s") (simp_all add: transform_def parser_strip)

lemma feed_strip:
  assumes "hls_sized s"
  shows "feed clk (strip_hls s) chunks = strip_hls (feed clk s chunks) \<and> hls_sized (feed clk s chunks)"
proof (induction chunks rule: rev_induct)
  case Nil
  with assms show ?case by (simp add: feed_def)
next
  case (snoc c chunks)
  have f: "\<And>s0. feed clk s0 (chunks @ [c]) = snd (transform clk (feed clk s0 chunks) c)"
    by (simp add: feed_def)
  from snoc transform_strip [of "feed clk s chunks" clk c] show ?case
    by (simp add: f commutes_def)
qed

lemma writes_strip:
  "hls_sized s \<Longrightarrow>
   writes clk (strip_hls s) chunks = (fst (writes clk s chunks), strip_hls (snd (writes clk s chunks)))"
proof (induction chunks arbitrary: s)
  case Nil
  show ?case by simp
next
  case (Cons c chunks)
  obtain e s1 where t: "transform clk s c = (e, s1)" by (cases "transform clk s c") auto
  from transform_strip [of s clk c] Cons.prems t
  have tN: "transform clk (strip_hls s) c = (e, strip_hls s1)" and ok1: "hls_sized s1"
    by (simp_all add: commutes_def)
  show ?case
  proof (cases e)
    case None
    with t tN Cons.IH [OF ok1] show ?thesis by simp
  next
    case (Some err)
    with t tN show ?thesis by simp
  qed
qed

lemma constructor_hls_sized: "hls_sized (constructor opts cb pipes listeners)"
  by (simp add: constructor_def fresh_def hls_sized_def clamp_hlsListSize_def Let_def
      split: option.split)

lemma constructor_strip:
  assumes "\<not> hls_enabled optsN" and "buffer_option optsH = buffer_option optsN"
  shows "constructor optsN cb pipes listeners = strip_hls (constructor optsH cb pipes listeners)"
  using assms
  by (auto simp: constructor_def fresh_def strip_hls_def hls_enabled_def buffer_option_def Let_def
      split: option.splits)

subsection \<open>A complete \<open>mdat\<close> box that ends inside the chunk\<close>

text \<open>
  \<open>_setSegment\<close> neither reads nor writes the fragment buffer, and with a ring that has a
  positive list size it appends its notifications to the trace and the segment to the
  buffer list.
\<close>

lemma setSegment_hls_nan:
  assumes "this_hlsList s = Some l" and "this_sequence s = None" and "0 < this_hlsListSize s"
  shows "setSegment clk s seg =
    (None, s\<lparr> this_segment := Some seg, this_duration := Some (segment_duration clk s),
               this_timestamp := Some (clk (clock_reads s)), clock_reads := Suc (clock_reads s),
               this_hlsList := Some (shift_while
                  (l @ [\<lparr> sequence = ''NaN'', segment = seg,
                          duration = segment_duration clk s \<rparr>]) (this_hlsListSize s)),
               this_sequence := None,
               this_m3u8 := Some (m3u8_head (round_string (segment_duration clk s))
                  (sequence (hd (shift_while
                  (l @ [\<lparr> sequence = ''NaN'', segment = seg,
                          duration = segment_duration clk s \<rparr>]) (this_hlsListSize s))))
                  (base_string s)
                 @ concat (map (m3u8_entry (base_string s)) (shift_while
                  (l @ [\<lparr> sequence = ''NaN'', segment = seg,
                          duration = segment_duration clk s \<rparr>]) (this_hlsListSize s)))),
               this_bufferList := map_option (\<lambda>l. shift_while (l @ [seg]) (this_bufferListSize s))
                  (this_bufferList s),
               this_trace := this_trace s @ notifications s seg \<rparr>)"
proof -
  let ?l1 = "shift_while (l @ [\<lparr> sequence = ''NaN'', segment = seg,
                          duration = segment_duration clk s \<rparr>]) (this_hlsListSize s)"
  have ne: "?l1 \<noteq> []" by (rule shift_while_snoc_nonempty [OF assms(3)])
  then obtain e es where l1: "?l1 = e # es" by (cases ?l1) auto
  show ?thesis
    using assms(1,2) l1
    by (simp add: setSegment_def Let_def notify_eq buffer_push_eq segment_duration_def
      notifications_def next_sequence_def base_string_def)
qed

lemma setSegment_mdat_slots:
  assumes "this_hlsList s \<noteq> None \<longrightarrow> 0 < this_hlsListSize s"
  shows "clear_mdat (snd (setSegment clk (s\<lparr> this_mdatBuffer := b, this_mdatBufferSize := n \<rparr>) seg))
     = clear_mdat (snd (setSegment clk s seg))"
proof -
  let ?s0 = "s\<lparr> this_mdatBuffer := b, this_mdatBufferSize := n \<rparr>"
  have nn: "notifications ?s0 = notifications s" by (rule notifications_cong) simp_all
  have dd: "segment_duration clk ?s0 = segment_duration clk s"
    by (simp add: segment_duration_def split: option.split)
  have bb: "base_string ?s0 = base_string s" by (simp add: base_string_def)
  show ?thesis
  proof (cases "this_hlsList s")
    case None
    then have n0: "this_hlsList ?s0 = None" by simp
    show ?thesis
      unfolding setSegment_no_hls [OF n0] setSegment_no_hls [OF None] nn dd
      by (cases s) (simp add: clear_mdat_def)
  next
    case (Some l)
    with assms have pos: "0 < this_hlsListSize s" by simp
    then have p0: "0 < this_hlsListSize ?s0" by simp
    from Some have h0: "this_hlsList ?s0 = Some l" by simp
    show ?thesis
    proof (cases "this_sequence s")
      case None
      then have q0: "this_sequence ?s0 = None" by simp
      show ?thesis
        unfolding setSegment_hls_nan [OF h0 q0 p0] setSegment_hls_nan [OF Some None pos] nn dd bb
        by (cases s) (simp add: clear_mdat_def)
    next
      case (Some k)
      then have q0: "this_sequence ?s0 = Some k" by simp
      show ?thesis
        unfolding setSegment_hls [OF h0 q0 p0] setSegment_hls [OF \<open>this_hlsList s = Some l\<close> Some pos]
          nn dd bb
        by (cases s) (simp add: clear_mdat_def)
    qed
  qed
qed

lemma setSegment_trace:
  assumes "this_hlsList s \<noteq> None \<longrightarrow> 0 < this_hlsListSize s"
  shows "this_trace (snd (setSegment clk s seg)) = this_trace s @ notifications s seg"
proof (cases "this_hlsList s")
  case None
  then show ?thesis by (simp add: setSegment_no_hls)
next
  case (Some l)
  with assms have pos: "0 < this_hlsListSize s" by simp
  show ?thesis
    using Some
    by (simp add: setSegment_def Let_def notify_eq buffer_push_eq notifications_def
        shift_while_snoc_nonempty [OF pos] split: prod.split list.split)
qed

lemma setSegment_bufferList:
  assumes "this_hlsList s \<noteq> None \<longrightarrow> 0 < this_hlsListSize s"
  shows "this_bufferList (snd (setSegment clk s seg))
    = map_option (\<lambda>l. shift_while (l @ [seg]) (this_bufferListSize s)) (this_bufferList s)"
proof (cases "this_hlsList s")
  case None
  then show ?thesis by (simp add: setSegment_no_hls)
next
  case (Some l)
  with assms have pos: "0 < this_hlsListSize s" by simp
  show ?thesis
    using Some
    by (simp add: setSegment_def Let_def notify_eq buffer_push_eq
        shift_while_snoc_nonempty [OF pos] split: prod.split list.split)
qed

text \<open>
  C1, as the code has it. With a fragment buffer in place that is short of the declared
  \<open>mdat\<close> length (the two length slots holding the lengths of the stored \<open>moof\<close> and
  fragments, and the list size of a ring, if there is one, positive, as the constructor and
  the parser leave them), a chunk that takes the running sum past that length makes
  \<open>_findMdat\<close> publish the segment: the \<open>moof\<close>, the fragments and the first bytes of the chunk up to the
  end of the \<open>mdat\<close> box, \<open>moofLength + mdatLength\<close> bytes in all. \<open>_setSegment\<close> is called
  on it and does not throw; the segment is the latest one, its notifications are appended to
  the trace and it is pushed on the buffer list; the box slots are cleared and \<open>_findMoof\<close>
  is selected and called, before \<open>_findMdat\<close> returns, on a non-empty proper suffix of the
  chunk, which is the bytes after the end of the \<open>mdat\<close> box when the chunk holds as many
  bytes after that end as before it. Without a fragment buffer, a chunk that starts with an
  \<open>mdat\<close> header whose box ends strictly inside the chunk makes \<open>_findMdat\<close> throw
  "mdatLength less than chunkLength"; nothing is published.
\<close>

theorem findMdat_box_ends_in_chunk:
  "(this_mdatBuffer s = Some bufs \<and> this_mdatBufferSize s = Some bufferSize
      \<and> length (concat bufs) = bufferSize
      \<and> this_mdatLength s = Some mdatLength
      \<and> this_moof s = Some moof \<and> this_moofLength s = Some moofLength
      \<and> length moof = moofLength
      \<and> bufferSize < mdatLength \<and> mdatLength < bufferSize + length chunk
      \<and> (this_hlsList s \<noteq> None \<longrightarrow> 0 < this_hlsListSize s)
    \<longrightarrow> (let seg = moof @ concat bufs @ take (mdatLength - bufferSize) chunk;
             s1 = clear_mdat (snd (setSegment clk s seg))
         in (\<exists>k. 0 < k \<and> k < length chunk
                \<and> (length chunk = 2 * (mdatLength - bufferSize) \<longrightarrow> k = mdatLength - bufferSize)
                \<and> findMdat clk s chunk = findMoof clk s1 (drop k chunk))
            \<and> fst (setSegment clk s seg) = None
            \<and> length seg = moofLength + mdatLength
            \<and> this_segment s1 = Some seg
            \<and> this_trace s1 = this_trace s @ notifications s seg
            \<and> this_bufferList s1
                = map_option (\<lambda>l. shift_while (l @ [seg]) (this_bufferListSize s))
                    (this_bufferList s)
            \<and> this_parseChunk s1 = FindMoof
            \<and> this_moof s1 = None \<and> this_moofLength s1 = None \<and> this_mdatBuffer s1 = None
            \<and> this_mdatLength s1 = None \<and> this_mdatBufferSize s1 = None))
   \<and> (this_mdatBuffer s = None \<and> \<not> bad_header chunk mdat_tag
      \<and> readUInt32BE chunk = Some n \<and> n < length chunk
    \<longrightarrow> findMdat clk s chunk = (Some MdatLengthLess, s\<lparr> this_mdatLength := Some n \<rparr>))"
proof (intro conjI impI)
  assume a: "this_mdatBuffer s = Some bufs \<and> this_mdatBufferSize s = Some bufferSize
      \<and> length (concat bufs) = bufferSize
      \<and> this_mdatLength s = Some mdatLength
      \<and> this_moof s = Some moof \<and> this_moofLength s = Some moofLength
      \<and> length moof = moofLength
      \<and> bufferSize < mdatLength \<and> mdatLength < bufferSize + length chunk
      \<and> (this_hlsList s \<noteq> None \<longrightarrow> 0 < this_hlsListSize s)"
  define seg where "seg = moof @ concat bufs @ take (mdatLength - bufferSize) chunk"
  define s0 where "s0 = s\<lparr> this_mdatBuffer := Some (bufs @ [chunk]),
      this_mdatBufferSize := Some (bufferSize + length chunk) \<rparr>"
  define s1 where "s1 = clear_mdat (snd (setSegment clk s seg))"
  define k where "k = bufferSize + length chunk - mdatLength"
  from a have lb: "length (concat bufs) = bufferSize" and lm: "length moof = moofLength"
    and lt1: "bufferSize < mdatLength" and lt2: "mdatLength < bufferSize + length chunk"
    and pos: "this_hlsList s \<noteq> None \<longrightarrow> 0 < this_hlsListSize s"
    by simp_all
  have bc: "buffer_concat (moof # bufs @ [chunk]) (moofLength + mdatLength) = seg"
    using lt1 lt2 by (simp add: buffer_concat_def seg_def lb [symmetric] lm [symmetric])
  have ok0: "fst (setSegment clk s0 seg) = None"
    using pos by (intro setSegment_ok) (simp add: s0_def)
  then obtain s2 where s2: "setSegment clk s0 seg = (None, s2)"
    by (cases "setSegment clk s0 seg") auto
  have cm: "clear_mdat s2 = s1"
    using setSegment_mdat_slots [OF pos, where clk = clk and b = "Some (bufs @ [chunk])"
        and n = "Some (bufferSize + length chunk)" and seg = seg] s2
    by (simp add: s0_def s1_def)
  have run: "findMdat clk s chunk = findMoof clk s1 (drop k chunk)"
    using a s2
    by (simp add: findMdat.simps [of clk s chunk] Let_def segment_blob_def s0_def
        bc cm slice_from_def k_def)
  have k1: "0 < k" and k2: "k < length chunk"
    and k3: "length chunk = 2 * (mdatLength - bufferSize) \<longrightarrow> k = mdatLength - bufferSize"
    using lt1 lt2 by (auto simp: k_def)
  have ex: "\<exists>k. 0 < k \<and> k < length chunk
      \<and> (length chunk = 2 * (mdatLength - bufferSize) \<longrightarrow> k = mdatLength - bufferSize)
      \<and> findMdat clk s chunk = findMoof clk s1 (drop k chunk)"
    using k1 k2 k3 run by blast
  have ok: "fst (setSegment clk s seg) = None"
    using pos by (rule setSegment_ok)
  have len: "length seg = moofLength + mdatLength"
    using lt1 lt2 by (simp add: seg_def lb lm)
  have g: "this_segment s1 = Some seg"
    using setSegment_segment [of clk s seg] by (simp add: s1_def clear_mdat_def)
  have t: "this_trace s1 = this_trace s @ notifications s seg"
    using setSegment_trace [OF pos, of clk seg] by (simp add: s1_def clear_mdat_def)
  have bl: "this_bufferList s1
      = map_option (\<lambda>l. shift_while (l @ [seg]) (this_bufferListSize s)) (this_bufferList s)"
    using setSegment_bufferList [OF pos, of clk seg] by (simp add: s1_def clear_mdat_def)
  have sl: "this_parseChunk s1 = FindMoof" "this_moof s1 = None" "this_moofLength s1 = None"
    "this_mdatBuffer s1 = None" "this_mdatLength s1 = None" "this_mdatBufferSize s1 = None"
    by (simp_all add: s1_def clear_mdat_def)
  show "let seg = moof @ concat bufs @ take (mdatLength - bufferSize) chunk;
             s1 = clear_mdat (snd (setSegment clk s seg))
         in (\<exists>k. 0 < k \<and> k < length chunk
                \<and> (length chunk = 2 * (mdatLength - bufferSize) \<longrightarrow> k = mdatLength - bufferSize)
                \<and> findMdat clk s chunk = findMoof clk s1 (drop k chunk))
            \<and> fst (setSegment clk s seg) = None
            \<and> length seg = moofLength + mdatLength
            \<and> this_segment s1 = Some seg
            \<and> this_trace s1 = this_trace s @ notifications s seg
            \<and> this_bufferList s1
                = map_option (\<lambda>l. shift_while (l @ [seg]) (this_bufferListSize s))
                    (this_bufferList s)
            \<and> this_parseChunk s1 = FindMoof
            \<and> this_moof s1 = None \<and> this_moofLength s1 = None \<and> this_mdatBuffer s1 = None
            \<and> this_mdatLength s1 = None \<and> this_mdatBufferSize s1 = None"
    unfolding Let_def seg_def [symmetric] s1_def [symmetric]
    using ex ok len g t bl sl by blast
next
  assume "this_mdatBuffer s = None \<and> \<not> bad_header chunk mdat_tag
      \<and> readUInt32BE chunk = Some n \<and> n < length chunk"
  then show "findMdat clk s chunk = (Some MdatLengthLess, s\<lparr> this_mdatLength := Some n \<rparr>)"
    by (simp add: findMdat.simps [of clk s chunk] Let_def)
qed

text \<open>
  C1, witness. For the first case the 16-byte \<open>mdat\<close> cut after its header, the chunk
  holding its last eight bytes and a \<open>moof\<close>: the segment is published and the \<open>moof\<close> is
  handed to \<open>_findMoof\<close>, which stores it. For the second case a \<open>moof\<close> glued behind the
  whole 12-byte \<open>mdat\<close>.
\<close>

theorem findMdat_box_ends_in_chunk_witness:
  "(let sA = snd (writes ex_clock ex_parser [ex_ftyp @ ex_moov, ex_moof @ take 8 ex_long_mdat]);
        chunk = drop 8 ex_long_mdat @ ex_moof;
        seg = ex_moof @ ex_long_mdat;
        s1 = clear_mdat (snd (setSegment ex_clock sA seg))
    in this_mdatBuffer sA = Some [take 8 ex_long_mdat] \<and> this_mdatBufferSize sA = Some 8
       \<and> this_mdatLength sA = Some 16
       \<and> this_moof sA = Some ex_moof \<and> this_moofLength sA = Some 8
       \<and> length chunk = 2 * (16 - 8)
       \<and> findMdat ex_clock sA chunk = findMoof ex_clock s1 ex_moof
       \<and> this_segment s1 = Some seg
       \<and> this_trace s1 = [Initialized, SegmentEvent seg]
       \<and> this_parseChunk s1 = FindMoof \<and> this_moof s1 = None \<and> this_mdatBuffer s1 = None
       \<and> fst (findMdat ex_clock sA chunk) = None
       \<and> this_parseChunk (snd (findMdat ex_clock sA chunk)) = FindMdat
       \<and> this_moof (snd (findMdat ex_clock sA chunk)) = Some ex_moof)
   \<and> (this_mdatBuffer (snd (writes ex_clock ex_parser [ex_ftyp @ ex_moov, ex_moof])) = None
    \<and> readUInt32BE (ex_mdat @ ex_moof) = Some 12
    \<and> 12 < length (ex_mdat @ ex_moof)
    \<and> findMdat ex_clock (snd (writes ex_clock ex_parser [ex_ftyp @ ex_moov, ex_moof]))
          (ex_mdat @ ex_moof)
        = (Some MdatLengthLess,
           (snd (writes ex_clock ex_parser [ex_ftyp @ ex_moov, ex_moof]))
             \<lparr> this_mdatLength := Some 12 \<rparr>))"
proof -
  let ?sA = "snd (writes ex_clock ex_parser [ex_ftyp @ ex_moov, ex_moof @ take 8 ex_long_mdat])"
  let ?sB = "snd (writes ex_clock ex_parser [ex_ftyp @ ex_moov, ex_moof])"
  let ?chunk = "drop 8 ex_long_mdat @ ex_moof"
  let ?seg = "ex_moof @ ex_long_mdat"
  let ?s1 = "clear_mdat (snd (setSegment ex_clock ?sA ?seg))"
  have a1: "this_mdatBuffer ?sA = Some [take 8 ex_long_mdat]"
    and a2: "this_mdatBufferSize ?sA = Some 8"
    and a3: "this_mdatLength ?sA = Some 16"
    and a4: "this_moof ?sA = Some ex_moof"
    and a5: "this_moofLength ?sA = Some 8"
    and a6: "this_hlsList ?sA \<noteq> None \<longrightarrow> 0 < this_hlsListSize ?sA"
    by (simp_all add: run_defs ex_defs ex_long_mdat_def)
  have a7: "length (concat [take 8 ex_long_mdat]) = 8" and a8: "length ex_moof = 8"
    and a9: "(8::nat) < 16" and a10: "16 < 8 + length ?chunk"
    and lc: "length ?chunk = 2 * (16 - 8)"
    by (simp_all add: ex_defs ex_long_mdat_def)
  have sg: "ex_moof @ concat [take 8 ex_long_mdat] @ take (16 - 8) ?chunk = ?seg"
    and dr: "drop (16 - 8) ?chunk = ex_moof"
    by (simp_all add: ex_long_mdat_def)
  have t0: "this_trace ?sA @ notifications ?sA ?seg = [Initialized, SegmentEvent ?seg]"
    by (simp add: run_defs ex_defs ex_long_mdat_def notifications_def)
  have e1: "fst (findMdat ex_clock ?sA ?chunk) = None"
    and e2: "this_parseChunk (snd (findMdat ex_clock ?sA ?chunk)) = FindMdat"
    and e3: "this_moof (snd (findMdat ex_clock ?sA ?chunk)) = Some ex_moof"
    by (simp_all add: run_defs ex_defs ex_long_mdat_def)
  have b1: "this_mdatBuffer ?sB = None"
    by (simp add: run_defs ex_defs)
  have b2: "\<not> bad_header (ex_mdat @ ex_moof) mdat_tag"
    and b3: "readUInt32BE (ex_mdat @ ex_moof) = Some 12"
    and b4: "12 < length (ex_mdat @ ex_moof)"
    by (simp_all add: buf_defs tag_defs ex_defs)
  have h: "this_mdatBuffer ?sA = Some [take 8 ex_long_mdat] \<and> this_mdatBufferSize ?sA = Some 8
      \<and> length (concat [take 8 ex_long_mdat]) = 8
      \<and> this_mdatLength ?sA = Some 16
      \<and> this_moof ?sA = Some ex_moof \<and> this_moofLength ?sA = Some 8
      \<and> length ex_moof = 8
      \<and> 8 < (16::nat) \<and> 16 < 8 + length ?chunk
      \<and> (this_hlsList ?sA \<noteq> None \<longrightarrow> 0 < this_hlsListSize ?sA)"
    using a1 a2 a3 a4 a5 a6 a7 a8 a9 a10 by blast
  note A = findMdat_box_ends_in_chunk [where s = ?sA and bufs = "[take 8 ex_long_mdat]"
      and mdatLength = 16 and bufferSize = 8 and moof = ex_moof and moofLength = 8
      and chunk = ?chunk and clk = ex_clock, THEN conjunct1, rule_format, OF h,
      unfolded Let_def sg]
  note B = findMdat_box_ends_in_chunk [where s = ?sB and chunk = "ex_mdat @ ex_moof" and n = 12
      and clk = ex_clock, THEN conjunct2, rule_format]
  from A lc obtain k where "k = 16 - 8"
    and "findMdat ex_clock ?sA ?chunk = findMoof ex_clock ?s1 (drop k ?chunk)"
    by blast
  then have run: "findMdat ex_clock ?sA ?chunk = findMoof ex_clock ?s1 ex_moof"
    by (simp only: dr)
  from A have g: "this_segment ?s1 = Some ?seg"
    and t: "this_trace ?s1 = this_trace ?sA @ notifications ?sA ?seg"
    and sl: "this_parseChunk ?s1 = FindMoof" "this_moof ?s1 = None" "this_mdatBuffer ?s1 = None"
    by blast+
  have B': "findMdat ex_clock ?sB (ex_mdat @ ex_moof)
        = (Some MdatLengthLess, ?sB \<lparr> this_mdatLength := Some 12 \<rparr>)"
    using b1 b2 b3 b4 by (intro B) blast
  show ?thesis
    unfolding Let_def
    using a1 a2 a3 a4 a5 lc run g t [unfolded t0] sl e1 e2 e3 b1 b3 b4 B' by blast
qed

text \<open>
  C1, counterexample: the parser waits for an \<open>mdat\<close>, the chunk holds the complete
  \<open>mdat\<close> box and then the next \<open>moof\<close>; the write throws and no segment is published.
\<close>

theorem mdat_inside_chunk_counterexample:
  "this_parseChunk (snd (writes ex_clock ex_parser [ex_ftyp @ ex_moov, ex_moof])) = FindMdat
   \<and> fst (writes ex_clock ex_parser [ex_ftyp @ ex_moov, ex_moof, ex_mdat @ ex_moof]) = Some MdatLengthLess
   \<and> this_segment (snd (writes ex_clock ex_parser [ex_ftyp @ ex_moov, ex_moof, ex_mdat @ ex_moof])) = None
   \<and> this_trace (snd (writes ex_clock ex_parser [ex_ftyp @ ex_moov, ex_moof, ex_mdat @ ex_moof])) = [Initialized]"
  by (simp add: run_defs ex_defs)

subsection \<open>A \<open>moof\<close> miss after the first segment\<close>

text \<open>
  C3, at a failing input. One segment has been published and the parser expects a
  \<open>moof\<close>; the next chunk is eight bytes that are no \<open>moof\<close> header. \<open>_findMoof\<close> starts
  the hunt and, the hunt having returned, goes on to read the box length from the same
  chunk: the write throws "mooflength > chunklength".
\<close>

theorem moof_miss_throws:
  "fst (writes ex_clock ex_parser [ex_ftyp @ ex_moov, ex_moof @ ex_mdat]) = None
   \<and> this_parseChunk (snd (writes ex_clock ex_parser [ex_ftyp @ ex_moov, ex_moof @ ex_mdat])) = FindMoof
   \<and> this_segment (snd (writes ex_clock ex_parser [ex_ftyp @ ex_moov, ex_moof @ ex_mdat]))
       = Some (ex_moof @ ex_mdat)
   \<and> this_parseChunk (snd (writes ex_clock ex_parser
          [ex_ftyp @ ex_moov, ex_moof @ ex_mdat, ex_garbage])) = MoofHunt
   \<and> fst (writes ex_clock ex_parser [ex_ftyp @ ex_moov, ex_moof @ ex_mdat, ex_garbage])
       = Some MoofLengthGreater"
  by (simp add: run_defs ex_defs)

subsection \<open>A \<open>moov\<close> box longer than its chunk\<close>

text \<open>
  C4, as the code has it. When the parser expects the \<open>moov\<close> and the declared length of
  the box exceeds the length of the chunk that carries its header, the write throws
  "moovLength greater than chunkLength" and leaves the instance as it was: no fragment is
  kept and no init blob is produced.
\<close>

theorem findMoov_straddle_throws:
  assumes "this_parseChunk s = FindMoov"
    and "\<not> bad_header chunk moov_tag"
    and "readUInt32BE chunk = Some n"
    and "length chunk < n"
  shows "transform clk s chunk = (Some MoovLengthGreater, s)"
  using assms by (simp add: transform_def findMoov.simps)

text \<open>C4, witness: the example \<open>moov\<close> cut after twelve of its sixteen bytes.\<close>

theorem findMoov_straddle_throws_witness:
  "this_parseChunk (snd (writes ex_clock ex_parser [ex_ftyp])) = FindMoov
   \<and> \<not> bad_header (take 12 ex_moov) moov_tag
   \<and> readUInt32BE (take 12 ex_moov) = Some 16
   \<and> length (take 12 ex_moov) < 16
   \<and> transform ex_clock (snd (writes ex_clock ex_parser [ex_ftyp])) (take 12 ex_moov)
       = (Some MoovLengthGreater, snd (writes ex_clock ex_parser [ex_ftyp]))"
proof -
  have 1: "this_parseChunk (snd (writes ex_clock ex_parser [ex_ftyp])) = FindMoov"
    by (simp add: run_defs ex_defs)
  have 2: "\<not> bad_header (take 12 ex_moov) moov_tag"
    by (simp add: bad_header_def ex_moov_def moov_tag_def)
  have 3: "readUInt32BE (take 12 ex_moov) = Some 16"
    by (simp add: readUInt32BE_def ex_moov_def)
  have 4: "length (take 12 ex_moov) < 16"
    by (simp add: ex_moov_def)
  from findMoov_straddle_throws [OF 1 2 3 4] 1 2 3 4 show ?thesis
    by blast
qed

text \<open>
  C4, counterexample: the \<open>ftyp\<close>, then the \<open>moov\<close> in two chunks; the run ends with the
  throw at the first of the two and there is no init blob.
\<close>

theorem moov_straddle_counterexample:
  "fst (writes ex_clock ex_parser [ex_ftyp, take 12 ex_moov, drop 12 ex_moov]) = Some MoovLengthGreater
   \<and> this_initialization (snd (writes ex_clock ex_parser [ex_ftyp, take 12 ex_moov, drop 12 ex_moov])) = None"
  by (simp add: run_defs ex_defs)

subsection \<open>The sequence accessor\<close>

text \<open>
  C5, at a failing input. After the first segment of an HLS-enabled session the ring holds
  the sequence number \<open>0\<close>, the one just assigned, and the accessor returns 1.
\<close>

theorem sequence_accessor_off_by_one:
  "map sequence (the (this_hlsList (snd (writes ex_clock ex_parser
        [ex_ftyp @ ex_moov, ex_moof @ ex_mdat])))) = [''0'']
   \<and> get_sequence (snd (writes ex_clock ex_parser [ex_ftyp @ ex_moov, ex_moof @ ex_mdat])) = 1"
  by (simp add: run_defs ex_defs get_sequence_def number_string.simps digit_char_def)

subsection \<open>The duration accessor\<close>

text \<open>
  C9, at a failing input. With a clock that gives the same instant at init and at the
  first segment, the segment is published with the duration 0 and the accessor returns
  \<open>-1\<close>.
\<close>

theorem duration_accessor_zero:
  "this_segment (snd (writes still_clock ex_parser [ex_ftyp @ ex_moov, ex_moof @ ex_mdat]))
     = Some (ex_moof @ ex_mdat)
   \<and> this_duration (snd (writes still_clock ex_parser [ex_ftyp @ ex_moov, ex_moof @ ex_mdat]))
     = Some (Num 0)
   \<and> get_duration (snd (writes still_clock ex_parser [ex_ftyp @ ex_moov, ex_moof @ ex_mdat])) = - 1"
  by (simp add: run_defs ex_defs get_duration_def)

subsection \<open>The playlist and the ring\<close>

text \<open>No method assigns \<open>_hlsBase\<close>: it is what the constructor stored.\<close>

lemma parseMoov_hlsBase: "this_hlsBase (snd (parseMoov clk s v)) = this_hlsBase s"
  by (simp add: parseMoov_def Let_def split: option.split)

lemma setSegment_hlsBase: "this_hlsBase (snd (setSegment clk s seg)) = this_hlsBase s"
  by (simp add: setSegment_def notify_eq buffer_push_eq Let_def
      split: option.split list.split prod.split)

lemma steps_hlsBase: "steps clk s s' \<Longrightarrow> this_hlsBase s' = this_hlsBase s"
proof (induction rule: steps.induct)
  case (stay s)
  show ?case by simp
next
  case (internal s s1 s2)
  from internal.hyps(2) have "this_hlsBase s2 = this_hlsBase s1"
    by (rule internal_eq_cases) simp
  with internal.IH show ?case by simp
next
  case (init_fail s s1 v e s2)
  from parseMoov_hlsBase [of clk s1 v] init_fail.hyps(3)
  have "this_hlsBase s2 = this_hlsBase s1" by simp
  with init_fail.IH show ?case by simp
next
  case (init_ok s s1 v s2 s3)
  from parseMoov_hlsBase [of clk s1 v] init_ok.hyps(3)
  have "this_hlsBase s2 = this_hlsBase s1" by simp
  moreover from init_ok.hyps(4) have "this_hlsBase s3 = this_hlsBase s2"
    by (rule internal_eq_cases) simp
  ultimately show ?case using init_ok.IH by simp
next
  case (publish s s1 seg e s2)
  from setSegment_hlsBase [of clk s1 seg] publish.hyps(3)
  have "this_hlsBase s2 = this_hlsBase s1" by simp
  with publish.IH show ?case by simp
qed

lemma constructor_hlsBase:
  "hlsBase opt = Some base \<Longrightarrow> base \<noteq> []
   \<Longrightarrow> this_hlsBase (constructor (Some opt) cb pipes listeners) = Some base"
  by (simp add: constructor_def fresh_def Let_def split: option.split)

text \<open>
  C7. In every HLS-enabled session, constructed with the non-empty \<open>hlsBase\<close> \<open>base\<close>, after
  any writes that published a segment the ring is not empty and the playlist text is the
  six header lines, with \<open>#EXT-X-TARGETDURATION:\<close> followed by the rounded duration of the
  latest segment, \<open>#EXT-X-MEDIA-SEQUENCE:\<close> by the sequence of the oldest ring entry and
  the \<open>#EXT-X-MAP\<close> URI \<open>init-base.mp4\<close>, and then, for each entry of the ring and no
  other, in ring order, a line \<open>#EXTINF:\<close> with the entry's duration to six decimals and a
  comma, and a line with the URI \<open>base\<close>, the entry's sequence and \<open>.m4s\<close>; the latest
  segment and its duration are those of the last ring entry.
\<close>

theorem playlist_lists_ring:
  assumes "hlsBase opt = Some base" and "base \<noteq> []"
    and "this_hlsList (feed clk (constructor (Some opt) cb pipes listeners) chunks) = Some l"
    and "this_segment (feed clk (constructor (Some opt) cb pipes listeners) chunks) \<noteq> None"
  shows "l \<noteq> []
    \<and> this_m3u8 (feed clk (constructor (Some opt) cb pipes listeners) chunks)
        = Some (''#EXTM3U'' @ [CHR 0x0A]
                @ ''#EXT-X-VERSION:7'' @ [CHR 0x0A]
                @ ''#EXT-X-ALLOW-CACHE:NO'' @ [CHR 0x0A]
                @ ''#EXT-X-TARGETDURATION:'' @ round_string (duration (last l)) @ [CHR 0x0A]
                @ ''#EXT-X-MEDIA-SEQUENCE:'' @ sequence (hd l) @ [CHR 0x0A]
                @ ''#EXT-X-MAP:URI='' @ [CHR 0x22] @ ''init-'' @ base @ ''.mp4''
                @ [CHR 0x22, CHR 0x0A]
                @ concat (map (\<lambda>e. ''#EXTINF:'' @ toFixed6 (duration e) @ '','' @ [CHR 0x0A]
                                  @ base @ sequence e @ ''.m4s'' @ [CHR 0x0A]) l))
    \<and> this_duration (feed clk (constructor (Some opt) cb pipes listeners) chunks)
        = Some (duration (last l))
    \<and> this_segment (feed clk (constructor (Some opt) cb pipes listeners) chunks)
        = Some (segment (last l))"
proof -
  let ?s = "feed clk (constructor (Some opt) cb pipes listeners) chunks"
  have inv: "session_inv ?s" by (rule feed_inv)
  have "this_hlsBase ?s = this_hlsBase (constructor (Some opt) cb pipes listeners)"
    by (rule steps_hlsBase [OF feed_steps])
  then have b: "base_string ?s = base"
    using constructor_hlsBase [OF assms(1,2)] by (simp add: base_string_def)
  show ?thesis
  proof (cases "late ?s")
    case False
    with inv assms(4) show ?thesis by (simp add: session_inv_def early_inv_def)
  next
    case True
    with inv obtain pubs where li: "late_inv ?s pubs" by (auto simp: session_inv_def)
    from li assms(4) have ne: "pubs \<noteq> []" by (auto simp: late_inv_def)
    then obtain ps p where pubs: "pubs = ps @ [p]" by (cases pubs rule: rev_cases) auto
    from li assms(3) have pos: "0 < this_hlsListSize ?s"
      and l: "l = ring_of (this_hlsListSize ?s) pubs"
      and m: "this_m3u8 ?s = Some (playlist_of (base_string ?s) l)"
      using ne by (simp_all add: late_inv_def)
    from li ne have g: "this_segment ?s = Some (fst (last pubs))"
      and d: "this_duration ?s = Some (snd (last pubs))"
      by (simp_all add: late_inv_def)
    note lst = ring_of_snoc_last [OF pos, of ps p, folded pubs, folded l]
    have pt: "playlist_of base l
        = ''#EXTM3U'' @ [CHR 0x0A]
                @ ''#EXT-X-VERSION:7'' @ [CHR 0x0A]
                @ ''#EXT-X-ALLOW-CACHE:NO'' @ [CHR 0x0A]
                @ ''#EXT-X-TARGETDURATION:'' @ round_string (duration (last l)) @ [CHR 0x0A]
                @ ''#EXT-X-MEDIA-SEQUENCE:'' @ sequence (hd l) @ [CHR 0x0A]
                @ ''#EXT-X-MAP:URI='' @ [CHR 0x22] @ ''init-'' @ base @ ''.mp4''
                @ [CHR 0x22, CHR 0x0A]
                @ concat (map (\<lambda>e. ''#EXTINF:'' @ toFixed6 (duration e) @ '','' @ [CHR 0x0A]
                                  @ base @ sequence e @ ''.m4s'' @ [CHR 0x0A]) l)"
      by (simp add: playlist_of_def m3u8_head_def m3u8_entry_def [abs_def] newline_def
          dquote_def)
    from lst g d m show ?thesis
      unfolding b pt by (simp add: pubs ring_entry_def)
  qed
qed

text \<open>
  C7, witness: three segments of 1.5, 4.5 and 7.5 seconds on a ring of two, which holds
  the segments numbered 1 and 2; the playlist text in full.
\<close>

theorem playlist_lists_ring_witness:
  "hlsBase ex_short_ring_options = Some ''seg'' \<and> ''seg'' \<noteq> []
   \<and> this_hlsList ex_short_ring_session
       = Some [\<lparr> sequence = ''1'', segment = ex_moof @ ex_mdat, duration = Num (9 / 2) \<rparr>,
               \<lparr> sequence = ''2'', segment = ex_moof @ ex_mdat, duration = Num (15 / 2) \<rparr>]
   \<and> this_segment ex_short_ring_session \<noteq> None
   \<and> this_m3u8 ex_short_ring_session
       = Some (''#EXTM3U'' @ [CHR 0x0A]
               @ ''#EXT-X-VERSION:7'' @ [CHR 0x0A]
               @ ''#EXT-X-ALLOW-CACHE:NO'' @ [CHR 0x0A]
               @ ''#EXT-X-TARGETDURATION:8'' @ [CHR 0x0A]
               @ ''#EXT-X-MEDIA-SEQUENCE:1'' @ [CHR 0x0A]
               @ ''#EXT-X-MAP:URI='' @ [CHR 0x22] @ ''init-seg.mp4'' @ [CHR 0x22, CHR 0x0A]
               @ ''#EXTINF:4.500000,'' @ [CHR 0x0A] @ ''seg1.m4s'' @ [CHR 0x0A]
               @ ''#EXTINF:7.500000,'' @ [CHR 0x0A] @ ''seg2.m4s'' @ [CHR 0x0A])
   \<and> this_duration ex_short_ring_session = Some (Num (15 / 2))
   \<and> this_segment ex_short_ring_session = Some (ex_moof @ ex_mdat)"
proof -
  have o: "hlsBase ex_short_ring_options = Some ''seg''" and n: "''seg'' \<noteq> []"
    by (simp_all add: ex_short_ring_options_def)
  have "(this_hlsList ex_short_ring_session, this_segment ex_short_ring_session)
       = (Some [\<lparr> sequence = ''1'', segment = ex_moof @ ex_mdat, duration = Num (9 / 2) \<rparr>,
               \<lparr> sequence = ''2'', segment = ex_moof @ ex_mdat, duration = Num (15 / 2) \<rparr>],
          Some (ex_moof @ ex_mdat))"
    by (simp add: feed_def ex_short_ring_session_def ex_short_ring_options_def
        ex_uneven_clock_def run_defs ex_defs number_string.simps digit_char_def)
  then have h: "this_hlsList ex_short_ring_session
       = Some [\<lparr> sequence = ''1'', segment = ex_moof @ ex_mdat, duration = Num (9 / 2) \<rparr>,
               \<lparr> sequence = ''2'', segment = ex_moof @ ex_mdat, duration = Num (15 / 2) \<rparr>]"
    and g: "this_segment ex_short_ring_session \<noteq> None"
    by simp_all
  have r: "int_string (math_round (15 / 2)) = ''8''"
    by (simp add: math_round_def int_string_def number_string_digit digit_char_def)
  have f: "toFixed6_abs (9 / 2) = ''4.500000''" "toFixed6_abs (15 / 2) = ''7.500000''"
    by (simp_all add: toFixed6_abs_def pad6_def Let_def floor_rat_numeral number_string_digit
        number_string_step digit_char_def)
  note T = playlist_lists_ring [where opt = ex_short_ring_options and base = "''seg''"
      and clk = ex_uneven_clock and cb = False and pipes = 0 and listeners = 1
      and chunks = "[ex_ftyp @ ex_moov, ex_moof @ ex_mdat, ex_moof @ ex_mdat, ex_moof @ ex_mdat]",
      folded ex_short_ring_session_def, OF o n h g]
  from T o n h g show ?thesis
    by (simp add: r f)
qed

subsection \<open>The order of the events\<close>

lemma segment_events_append [simp]:
  "segment_events (xs @ ys) = segment_events xs @ segment_events ys"
  by (simp add: segment_events_def)






subsection \<open>A session without HLS\<close>

text \<open>
  C10. If the options give no non-empty \<open>hlsBase\<close>, then after any writes the sequence
  accessor returns \<open>-1\<close>, the playlist accessor returns null and \<open>getHlsSegment\<close> returns
  null for every argument; and against a parser constructed with the same buffer option,
  callback and listeners but any HLS options, the same writes throw the same errors and leave
  the same latest segment, the same buffer ring and the same trace of pushes, callback calls
  and events.
\<close>

theorem hls_disabled_session:
  assumes "\<not> hls_enabled optsN" and "buffer_option optsH = buffer_option optsN"
  shows "get_sequence (feed clk (constructor optsN cb pipes listeners) chunks) = - 1
    \<and> get_m3u8 (feed clk (constructor optsN cb pipes listeners) chunks) = None
    \<and> getHlsSegment (feed clk (constructor optsN cb pipes listeners) chunks) v = None
    \<and> fst (writes clk (constructor optsN cb pipes listeners) chunks)
        = fst (writes clk (constructor optsH cb pipes listeners) chunks)
    \<and> get_segment (feed clk (constructor optsN cb pipes listeners) chunks)
        = get_segment (feed clk (constructor optsH cb pipes listeners) chunks)
    \<and> get_bufferList (feed clk (constructor optsN cb pipes listeners) chunks)
        = get_bufferList (feed clk (constructor optsH cb pipes listeners) chunks)
    \<and> this_trace (feed clk (constructor optsN cb pipes listeners) chunks)
        = this_trace (feed clk (constructor optsH cb pipes listeners) chunks)"
proof -
  let ?cN = "constructor optsN cb pipes listeners"
  let ?cH = "constructor optsH cb pipes listeners"
  have c: "?cN = strip_hls ?cH" by (rule constructor_strip [OF assms])
  have okH: "hls_sized ?cH" by (rule constructor_hls_sized)
  have f: "feed clk ?cN chunks = strip_hls (feed clk ?cH chunks)"
    unfolding c using feed_strip [OF okH] by simp
  have w: "fst (writes clk ?cN chunks) = fst (writes clk ?cH chunks)"
    unfolding c using writes_strip [OF okH] by simp
  show ?thesis
    unfolding f using w
    by (simp add: get_sequence_def get_m3u8_def getHlsSegment_def get_segment_def
        get_bufferList_def strip_hls_def)
qed

text \<open>
  C10, witness: a parser constructed with no options against the HLS-enabled example
  parser, on the example session; the HLS one does return a segment for sequence \<open>0\<close>.
\<close>

theorem hls_disabled_session_witness:
  "\<not> hls_enabled None \<and> buffer_option (Some ex_hls_options) = buffer_option None
   \<and> get_sequence (feed ex_clock (constructor None False 0 1) [ex_ftyp @ ex_moov, ex_moof @ ex_mdat]) = - 1
   \<and> get_m3u8 (feed ex_clock (constructor None False 0 1) [ex_ftyp @ ex_moov, ex_moof @ ex_mdat]) = None
   \<and> getHlsSegment (feed ex_clock (constructor None False 0 1) [ex_ftyp @ ex_moov, ex_moof @ ex_mdat])
         (JString ''0'') = None
   \<and> getHlsSegment ex_session (JString ''0'') = Some (ex_moof @ ex_mdat)
   \<and> get_segment (feed ex_clock (constructor None False 0 1) [ex_ftyp @ ex_moov, ex_moof @ ex_mdat])
       = get_segment ex_session
   \<and> this_trace (feed ex_clock (constructor None False 0 1) [ex_ftyp @ ex_moov, ex_moof @ ex_mdat])
       = this_trace ex_session
   \<and> get_segment ex_session = Some (ex_moof @ ex_mdat)"
proof -
  have a: "\<not> hls_enabled None" by (simp add: hls_enabled_def)
  have b: "buffer_option (Some ex_hls_options) = buffer_option None"
    by (simp add: buffer_option_def ex_hls_options_def)
  have h: "getHlsSegment ex_session (JString ''0'') = Some (ex_moof @ ex_mdat)"
    by (simp add: feed_defs run_defs ex_defs getHlsSegment_def number_string.simps digit_char_def)
  have g: "get_segment ex_session = Some (ex_moof @ ex_mdat)"
    by (simp add: feed_defs run_defs ex_defs get_segment_def)
  from hls_disabled_session [OF a b, of ex_clock False 0 1
      "[ex_ftyp @ ex_moov, ex_moof @ ex_mdat]" "JString ''0''",
      folded ex_parser_def, folded ex_session_def] a b h g
  show ?thesis by simp
qed

subsection \<open>Chunkings the parser accepts\<close>

lemma good_header_length: "\<not> bad_header b tag \<Longrightarrow> 8 \<le> length b"
  by (auto simp: bad_header_def)

lemma bad_header_append: "8 \<le> length b \<Longrightarrow> bad_header (b @ y) tag = bad_header b tag"
  by (simp add: bad_header_def nth_append)

lemma readUInt32BE_append: "4 \<le> length b \<Longrightarrow> readUInt32BE (b @ y) = readUInt32BE b"
  by (auto simp: readUInt32BE_def nth_append)

lemma is_box_length: "is_box tag b \<Longrightarrow> 8 \<le> length b"
  by (auto simp: is_box_def dest: good_header_length)

lemma buffer_concat_exact: "n = length (concat bufs) \<Longrightarrow> buffer_concat bufs n = concat bufs"
  by (simp add: buffer_concat_def)

lemma buffer_concat_prefix:
  "buffer_concat [f, m @ y] (length f + length m) = f @ m"
  by (simp add: buffer_concat_def)

lemma findFtyp_box:
  assumes "is_box ftyp_tag f"
  shows "findFtyp clk s f
    = (None, s\<lparr> this_ftypLength := Some (length f), this_ftyp := Some f,
                this_parseChunk := FindMoov \<rparr>)"
  using assms by (simp add: is_box_def findFtyp.simps)

lemma findFtyp_join:
  assumes "is_box ftyp_tag f" and "y \<noteq> []"
  shows "findFtyp clk s (f @ y)
    = findMoov clk (s\<lparr> this_ftypLength := Some (length f), this_ftyp := Some f,
                        this_parseChunk := FindMoov \<rparr>) y"
proof -
  from assms(1) have l: "8 \<le> length f" by (rule is_box_length)
  then have h: "\<not> bad_header (f @ y) ftyp_tag" and r: "readUInt32BE (f @ y) = Some (length f)"
    using assms(1) by (simp_all add: is_box_def bad_header_append readUInt32BE_append)
  show ?thesis
    using h r assms(2) by (simp add: findFtyp.simps slice_range_def slice_from_def)
qed

lemma findMoof_box:
  assumes "is_box moof_tag a"
  shows "findMoof clk s a
    = (None, s\<lparr> this_moofLength := Some (length a), this_moof := Some a,
                this_parseChunk := FindMdat \<rparr>)"
  using assms by (simp add: is_box_def findMoof.simps)

lemma findMoof_join:
  assumes "is_box moof_tag a" and "y \<noteq> []"
  shows "findMoof clk s (a @ y)
    = findMdat clk (s\<lparr> this_moofLength := Some (length a), this_moof := Some a,
                        this_parseChunk := FindMdat \<rparr>) y"
proof -
  from assms(1) have l: "8 \<le> length a" by (rule is_box_length)
  then have h: "\<not> bad_header (a @ y) moof_tag" and r: "readUInt32BE (a @ y) = Some (length a)"
    using assms(1) by (simp_all add: is_box_def bad_header_append readUInt32BE_append)
  show ?thesis
    using h r assms(2) by (simp add: findMoof.simps slice_range_def slice_from_def)
qed

lemma findMoov_box:
  assumes "is_box moov_tag m" and "this_ftyp s = Some f" and "this_ftypLength s = Some (length f)"
    and "parseMoov clk s (f @ m) = (None, s1)"
  shows "findMoov clk s m
    = (None, s1\<lparr> this_ftyp := None, this_ftypLength := None, this_parseChunk := FindMoof \<rparr>)"
  using assms
  by (simp add: is_box_def findMoov.simps init_blob_def buffer_concat_def)

lemma findMoov_join:
  assumes "is_box moov_tag m" and "this_ftyp s = Some f" and "this_ftypLength s = Some (length f)"
    and "parseMoov clk s (f @ m) = (None, s1)" and "y \<noteq> []"
  shows "findMoov clk s (m @ y)
    = findMoof clk (s1\<lparr> this_ftyp := None, this_ftypLength := None,
                         this_parseChunk := FindMoof \<rparr>) y"
proof -
  from assms(1) have l: "8 \<le> length m" by (rule is_box_length)
  then have h: "\<not> bad_header (m @ y) moov_tag" and r: "readUInt32BE (m @ y) = Some (length m)"
    using assms(1) by (simp_all add: is_box_def bad_header_append readUInt32BE_append)
  show ?thesis
    using h r assms(2-5)
    by (simp add: findMoov.simps init_blob_def buffer_concat_prefix slice_from_def)
qed

lemma findMdat_whole:
  assumes "is_box mdat_tag d" and "this_mdatBuffer s = None"
    and "this_moof s = Some a" and "this_moofLength s = Some (length a)"
    and "setSegment clk (s\<lparr> this_mdatLength := Some (length d) \<rparr>) (a @ d) = (None, s2)"
  shows "findMdat clk s d
    = (None, s2\<lparr> this_moof := None, this_moofLength := None, this_mdatLength := None,
                 this_parseChunk := FindMoof \<rparr>)"
  using assms
  by (simp add: is_box_def findMdat.simps segment_blob_def buffer_concat_def)

lemma findMdat_start:
  assumes "\<not> bad_header p mdat_tag" and "readUInt32BE p = Some n" and "length p < n"
    and "this_mdatBuffer s = None"
  shows "findMdat clk s p
    = (None, s\<lparr> this_mdatLength := Some n, this_mdatBuffer := Some [p],
                this_mdatBufferSize := Some (length p) \<rparr>)"
  using assms by (simp add: findMdat.simps)

lemma findMdat_more:
  assumes "this_mdatBuffer s = Some bufs" and "this_mdatLength s = Some n"
    and "this_mdatBufferSize s = Some k" and "k + length p < n"
  shows "findMdat clk s p
    = (None, s\<lparr> this_mdatBuffer := Some (bufs @ [p]),
                this_mdatBufferSize := Some (k + length p) \<rparr>)"
  using assms by (simp add: findMdat.simps)

lemma findMdat_last:
  assumes "this_mdatBuffer s = Some bufs" and "this_mdatLength s = Some n"
    and "this_mdatBufferSize s = Some k" and "k + length p = n"
    and "this_moof s = Some a" and "this_moofLength s = Some (length a)"
    and "length (concat bufs) = k"
    and "setSegment clk (s\<lparr> this_mdatBuffer := Some (bufs @ [p]),
            this_mdatBufferSize := Some n \<rparr>) (a @ concat bufs @ p) = (None, s2)"
  shows "findMdat clk s p = (None, clear_mdat s2)"
  using assms
  by (simp add: findMdat.simps segment_blob_def buffer_concat_def)

lemma setSegment_internals:
  assumes "hls_sized s"
  shows "setSegment clk (s\<lparr> this_parseChunk := pc, this_moof := a, this_moofLength := b,
        this_mdatBuffer := c, this_mdatLength := d, this_mdatBufferSize := e \<rparr>) seg
    = (None, (publish clk s seg)\<lparr> this_parseChunk := pc, this_moof := a, this_moofLength := b,
        this_mdatBuffer := c, this_mdatLength := d, this_mdatBufferSize := e \<rparr>)"
proof (cases "this_hlsList s")
  case None
  let ?s1 = "s\<lparr> this_parseChunk := pc, this_moof := a, this_moofLength := b,
        this_mdatBuffer := c, this_mdatLength := d, this_mdatBufferSize := e \<rparr>"
  have n1: "this_hlsList ?s1 = None" using None by simp
  have nn: "notifications ?s1 = notifications s" by (rule notifications_cong) simp_all
  have dd: "segment_duration clk ?s1 = segment_duration clk s" by (simp add: segment_duration_def split: option.split)
  show ?thesis
    unfolding publish_def setSegment_no_hls [OF n1] setSegment_no_hls [OF None] nn dd
    by simp
next
  case (Some l)
  let ?s1 = "s\<lparr> this_parseChunk := pc, this_moof := a, this_moofLength := b,
        this_mdatBuffer := c, this_mdatLength := d, this_mdatBufferSize := e \<rparr>"
  from assms Some obtain k where q: "this_sequence s = Some k" and pos: "0 < this_hlsListSize s"
    by (auto simp: hls_sized_def)
  have h1: "this_hlsList ?s1 = Some l" and q1: "this_sequence ?s1 = Some k"
    and p1: "0 < this_hlsListSize ?s1" using Some q pos by simp_all
  have nn: "notifications ?s1 = notifications s" by (rule notifications_cong) simp_all
  have dd: "segment_duration clk ?s1 = segment_duration clk s" by (simp add: segment_duration_def split: option.split)
  have bb: "base_string ?s1 = base_string s" by (simp add: base_string_def)
  show ?thesis
    unfolding publish_def setSegment_hls [OF h1 q1 p1] setSegment_hls [OF Some q pos] nn dd bb
    by simp
qed

lemma publish_internal_fields:
  "this_parseChunk (publish clk s seg) = this_parseChunk s"
  "this_moof (publish clk s seg) = this_moof s"
  "this_moofLength (publish clk s seg) = this_moofLength s"
  "this_mdatBuffer (publish clk s seg) = this_mdatBuffer s"
  "this_mdatLength (publish clk s seg) = this_mdatLength s"
  "this_mdatBufferSize (publish clk s seg) = this_mdatBufferSize s"
  "this_ftyp (publish clk s seg) = this_ftyp s"
  "this_ftypLength (publish clk s seg) = this_ftypLength s"
  by (simp_all add: publish_def setSegment_def notify_eq buffer_push_eq Let_def
      split: option.split list.split prod.split)

lemma ready_publish: "ready s \<Longrightarrow> ready (publish clk s seg)"
  using setSegment_hls_sized [of s clk seg]
  by (simp add: ready_def publish_internal_fields) (simp add: publish_def)

lemma ready_absorb:
  assumes "ready s"
  shows "s\<lparr> this_parseChunk := FindMoof, this_moof := None, this_moofLength := None,
        this_mdatBuffer := None, this_mdatLength := None, this_mdatBufferSize := None \<rparr> = s"
  using assms by (cases s) (simp add: ready_def)

lemma ready_clear_internals:
  assumes "ready t"
  shows "clear_mdat (t\<lparr> this_parseChunk := pc, this_moof := a, this_moofLength := b,
        this_mdatBuffer := c, this_mdatLength := d, this_mdatBufferSize := e \<rparr>) = t"
  using assms by (cases t) (simp add: ready_def clear_mdat_def)

lemma collecting_last:
  assumes "ready s" and "length (concat bufs) + length p = n"
  shows "transform clk (collecting s a bufs n) p = (None, publish clk s (a @ concat bufs @ p))"
proof -
  let ?c = "collecting s a bufs n"
  from assms(1) have ok: "hls_sized s" by (simp add: ready_def)
  have upd: "?c\<lparr> this_mdatBuffer := Some (bufs @ [p]), this_mdatBufferSize := Some n \<rparr>
      = s\<lparr> this_parseChunk := FindMdat, this_moof := Some a, this_moofLength := Some (length a),
           this_mdatBuffer := Some (bufs @ [p]), this_mdatLength := Some n,
           this_mdatBufferSize := Some n \<rparr>"
    by (simp add: collecting_def)
  have ss: "setSegment clk (?c\<lparr> this_mdatBuffer := Some (bufs @ [p]),
        this_mdatBufferSize := Some n \<rparr>) (a @ concat bufs @ p)
      = (None, (publish clk s (a @ concat bufs @ p))
           \<lparr> this_parseChunk := FindMdat, this_moof := Some a, this_moofLength := Some (length a),
             this_mdatBuffer := Some (bufs @ [p]), this_mdatLength := Some n,
             this_mdatBufferSize := Some n \<rparr>)"
    unfolding upd by (rule setSegment_internals [OF ok])
  have "findMdat clk ?c p = (None, clear_mdat ((publish clk s (a @ concat bufs @ p))
           \<lparr> this_parseChunk := FindMdat, this_moof := Some a, this_moofLength := Some (length a),
             this_mdatBuffer := Some (bufs @ [p]), this_mdatLength := Some n,
             this_mdatBufferSize := Some n \<rparr>))"
    by (rule findMdat_last [OF _ _ _ assms(2) _ _ refl ss]) (simp_all add: collecting_def)
  also have "\<dots> = (None, publish clk s (a @ concat bufs @ p))"
    by (simp only: ready_clear_internals [OF ready_publish [OF assms(1)]])
  finally show ?thesis by (simp add: transform_def collecting_def)
qed

lemma collecting_more:
  assumes "length (concat bufs) + length p < n"
  shows "transform clk (collecting s a bufs n) p = (None, collecting s a (bufs @ [p]) n)"
proof -
  have "findMdat clk (collecting s a bufs n) p
      = (None, (collecting s a bufs n)\<lparr> this_mdatBuffer := Some (bufs @ [p]),
           this_mdatBufferSize := Some (length (concat bufs) + length p) \<rparr>)"
    by (rule findMdat_more [OF _ _ _ assms]) (simp_all add: collecting_def)
  then show ?thesis by (simp add: transform_def collecting_def)
qed

lemma collecting_run:
  assumes "ready s"
  shows "ps \<noteq> [] \<Longrightarrow> \<forall>p \<in> set ps. p \<noteq> []
    \<Longrightarrow> length (concat bufs) + length (concat ps) = n
    \<Longrightarrow> writes clk (collecting s a bufs n) ps
        = (None, publish clk s (a @ concat bufs @ concat ps))"
proof (induction ps arbitrary: bufs)
  case Nil
  then show ?case by simp
next
  case (Cons p ps)
  show ?case
  proof (cases "ps = []")
    case True
    with Cons.prems(3) have "length (concat bufs) + length p = n" by simp
    from collecting_last [OF assms this, of clk a] True show ?thesis by simp
  next
    case False
    then obtain q qs where ps: "ps = q # qs" by (cases ps) auto
    with Cons.prems(2) have "q \<noteq> []" by simp
    then have "0 < length q" by simp
    then have "0 < length (concat ps)" unfolding ps by simp
    moreover have "length (concat bufs) + length p + length (concat ps) = n"
      using Cons.prems(3) by simp
    ultimately have lt: "length (concat bufs) + length p < n" by linarith
    have ih: "writes clk (collecting s a (bufs @ [p]) n) ps
        = (None, publish clk s (a @ concat (bufs @ [p]) @ concat ps))"
      using Cons.prems by (intro Cons.IH False) simp_all
    from collecting_more [OF lt, of clk s a] ih show ?thesis by simp
  qed
qed

lemma moof_step:
  assumes "ready s" and "is_box moof_tag a"
  shows "transform clk s a = (None, awaiting s a)"
  using assms(1) findMoof_box [OF assms(2), of clk s]
  by (simp add: transform_def ready_def awaiting_def)

lemma moof_join_step:
  assumes "ready s" and "is_box moof_tag a" and "y \<noteq> []"
  shows "transform clk s (a @ y) = transform clk (awaiting s a) y"
  using assms(1) findMoof_join [OF assms(2,3), of clk s]
  by (simp add: transform_def ready_def awaiting_def)

lemma ready_whole_absorb:
  assumes "ready t"
  shows "t\<lparr> this_parseChunk := pc, this_moof := a, this_moofLength := b,
        this_mdatBuffer := None, this_mdatLength := d, this_mdatBufferSize := None,
        this_moof := None, this_moofLength := None, this_mdatLength := None,
        this_parseChunk := FindMoof \<rparr> = t"
  using assms by (cases t) (simp add: ready_def)

lemma awaiting_whole:
  assumes "ready s" and "is_box mdat_tag d"
  shows "transform clk (awaiting s a) d = (None, publish clk s (a @ d))"
proof -
  from assms(1) have ok: "hls_sized s" by (simp add: ready_def)
  have upd: "(awaiting s a)\<lparr> this_mdatLength := Some (length d) \<rparr>
      = s\<lparr> this_parseChunk := FindMdat, this_moof := Some a, this_moofLength := Some (length a),
           this_mdatBuffer := None, this_mdatLength := Some (length d),
           this_mdatBufferSize := None \<rparr>"
    using assms(1) by (cases s) (simp add: awaiting_def ready_def)
  have ss: "setSegment clk ((awaiting s a)\<lparr> this_mdatLength := Some (length d) \<rparr>) (a @ d)
      = (None, (publish clk s (a @ d))
           \<lparr> this_parseChunk := FindMdat, this_moof := Some a, this_moofLength := Some (length a),
             this_mdatBuffer := None, this_mdatLength := Some (length d),
             this_mdatBufferSize := None \<rparr>)"
    unfolding upd by (rule setSegment_internals [OF ok])
  have "findMdat clk (awaiting s a) d = (None, (publish clk s (a @ d))
           \<lparr> this_parseChunk := FindMdat, this_moof := Some a, this_moofLength := Some (length a),
             this_mdatBuffer := None, this_mdatLength := Some (length d),
             this_mdatBufferSize := None,
             this_moof := None, this_moofLength := None, this_mdatLength := None,
             this_parseChunk := FindMoof \<rparr>)"
    using assms(1)
    by (intro findMdat_whole [OF assms(2) _ _ _ ss, THEN trans])
      (simp_all add: awaiting_def ready_def)
  also have "\<dots> = (None, publish clk s (a @ d))"
    by (simp only: ready_whole_absorb [OF ready_publish [OF assms(1)]])
  finally show ?thesis by (simp add: transform_def awaiting_def)
qed

lemma awaiting_start:
  assumes "ready s" and "\<not> bad_header p mdat_tag" and "readUInt32BE p = Some n"
    and "length p < n"
  shows "transform clk (awaiting s a) p = (None, collecting s a [p] n)"
proof -
  have "findMdat clk (awaiting s a) p
      = (None, (awaiting s a)\<lparr> this_mdatLength := Some n, this_mdatBuffer := Some [p],
           this_mdatBufferSize := Some (length p) \<rparr>)"
    using assms(1) by (intro findMdat_start [OF assms(2,3,4)]) (simp add: awaiting_def ready_def)
  moreover have "(awaiting s a)\<lparr> this_mdatLength := Some n, this_mdatBuffer := Some [p],
           this_mdatBufferSize := Some (length p) \<rparr> = collecting s a [p] n"
    by (cases s) (simp add: awaiting_def collecting_def)
  ultimately show ?thesis by (simp add: transform_def awaiting_def)
qed

lemma awaiting_pieces:
  assumes "ready s" and "is_box mdat_tag d" and "good_pieces d ps"
  shows "writes clk (awaiting s a) ps = (None, publish clk s (a @ d))"
proof -
  from assms(3) obtain p qs where ps: "ps = p # qs" and cat: "p @ concat qs = d"
    and l8: "8 \<le> length p" and ne: "\<forall>q \<in> set qs. q \<noteq> []"
    by (cases ps) (auto simp: good_pieces_def)
  show ?thesis
  proof (cases "qs = []")
    case True
    with cat have "p = d" by simp
    with awaiting_whole [OF assms(1,2), of clk a] ps True show ?thesis by simp
  next
    case False
    then obtain q qs' where qs: "qs = q # qs'" by (cases qs) auto
    with ne have "0 < length q" by simp
    then have "0 < length (concat qs)" unfolding qs by simp
    moreover have ld: "length p + length (concat qs) = length d"
      using cat [symmetric] by simp
    ultimately have lt: "length p < length d" by linarith
    have h: "\<not> bad_header p mdat_tag" and r: "readUInt32BE p = Some (length d)"
      using assms(2) l8 bad_header_append [OF l8, of "concat qs" mdat_tag]
        readUInt32BE_append [of p "concat qs"]
      by (simp_all add: is_box_def cat)
    have step: "transform clk (awaiting s a) p = (None, collecting s a [p] (length d))"
      by (rule awaiting_start [OF assms(1) h r lt])
    have run: "writes clk (collecting s a [p] (length d)) qs
        = (None, publish clk s (a @ concat [p] @ concat qs))"
      using ld by (intro collecting_run [OF assms(1) False ne]) simp
    from step run cat show ?thesis by (simp add: ps)
  qed
qed

lemma segment_chunks:
  assumes "ready s" and "is_box moof_tag a" and "is_box mdat_tag d" and "good_pieces d ps"
  shows "writes clk s (join g a ps) = (None, publish clk s (a @ d))"
proof -
  from assms(4) obtain p qs where ps: "ps = p # qs" and l8: "8 \<le> length p"
    by (cases ps) (auto simp: good_pieces_def)
  then have pne: "p \<noteq> []" by auto
  note run = awaiting_pieces [OF assms(1,3,4), of clk a, unfolded ps]
  show ?thesis
  proof (cases g)
    case True
    with moof_join_step [OF assms(1,2) pne, of clk] run show ?thesis
      by (simp add: ps)
  next
    case False
    with moof_step [OF assms(1,2), of clk] run show ?thesis
      by (simp add: ps)
  qed
qed

lemma writes_append:
  "writes clk s (xs @ ys) =
     (case writes clk s xs of (None, s1) \<Rightarrow> writes clk s1 ys | (Some e, s1) \<Rightarrow> (Some e, s1))"
proof (induction xs arbitrary: s)
  case Nil
  show ?case by simp
next
  case (Cons x xs)
  obtain e s1 where t: "transform clk s x = (e, s1)" by (cases "transform clk s x") auto
  show ?case using t Cons.IH [of s1] by (cases e) simp_all
qed

lemma join_writes:
  assumes "transform clk s x = (None, s1)"
    and "\<And>y. y \<noteq> [] \<Longrightarrow> transform clk s (x @ y) = transform clk s1 y"
    and "ys \<noteq> [] \<Longrightarrow> hd ys \<noteq> []"
  shows "writes clk s (join g x ys) = writes clk s1 ys"
proof (cases ys)
  case Nil
  with assms(1) show ?thesis by simp
next
  case (Cons y ys')
  with assms(3) have "y \<noteq> []" by simp
  with assms(1) assms(2) [of y] Cons show ?thesis by simp
qed

lemma join_nonempty: "x \<noteq> [] \<Longrightarrow> join g x ys \<noteq> [] \<and> hd (join g x ys) \<noteq> []"
  by (cases ys) auto

lemma concat_join: "concat (join g x ys) = x @ concat ys"
  by (cases ys) auto

lemma box_nonempty: "is_box tag b \<Longrightarrow> b \<noteq> []"
  using is_box_length [of tag b] by auto

lemma ftyp_step:
  assumes "starting s" and "is_box ftyp_tag f"
  shows "transform clk s f = (None, holding s f)"
  using assms(1) findFtyp_box [OF assms(2), of clk s]
  by (simp add: transform_def starting_def holding_def)

lemma ftyp_join_step:
  assumes "starting s" and "is_box ftyp_tag f" and "y \<noteq> []"
  shows "transform clk s (f @ y) = transform clk (holding s f) y"
  using assms(1) findFtyp_join [OF assms(2,3), of clk s]
  by (simp add: transform_def starting_def holding_def)

lemma parseMoov_holding:
  "parseMoov clk (holding s f) blob
     = (fst (parseMoov clk s blob), holding (snd (parseMoov clk s blob)) f)"
  by (cases "this_hlsList s")
    (simp_all add: parseMoov_def holding_def Let_def base_string_def split: option.split)

lemma parseMoov_succeeds: "indexOf blob avcC_tag \<noteq> None \<Longrightarrow> fst (parseMoov clk s blob) = None"
  by (auto simp: parseMoov_def Let_def)

lemma parseMoov_internal_fields:
  "this_moof (snd (parseMoov clk s v)) = this_moof s"
  "this_moofLength (snd (parseMoov clk s v)) = this_moofLength s"
  "this_mdatBuffer (snd (parseMoov clk s v)) = this_mdatBuffer s"
  "this_mdatLength (snd (parseMoov clk s v)) = this_mdatLength s"
  "this_mdatBufferSize (snd (parseMoov clk s v)) = this_mdatBufferSize s"
  "this_ftyp (snd (parseMoov clk s v)) = this_ftyp s"
  "this_ftypLength (snd (parseMoov clk s v)) = this_ftypLength s"
  by (simp_all add: parseMoov_def Let_def split: option.split)

lemma ready_init_done: "starting s \<Longrightarrow> ready (init_done clk s blob)"
  by (simp add: starting_def ready_def init_done_def parseMoov_internal_fields
      parseMoov_hls_sized)

lemma holding_done:
  assumes "starting s"
  shows "(holding (snd (parseMoov clk s blob)) f)
      \<lparr> this_ftyp := None, this_ftypLength := None, this_parseChunk := FindMoof \<rparr>
    = init_done clk s blob"
proof -
  have "this_ftyp (snd (parseMoov clk s blob)) = None"
    and "this_ftypLength (snd (parseMoov clk s blob)) = None"
    using assms by (simp_all add: parseMoov_internal_fields starting_def)
  then show ?thesis
    by (cases "snd (parseMoov clk s blob)") (simp add: holding_def init_done_def)
qed

lemma moov_step:
  assumes "starting s" and "is_box moov_tag m" and "indexOf (f @ m) avcC_tag \<noteq> None"
  shows "transform clk (holding s f) m = (None, init_done clk s (f @ m))"
proof -
  have pm: "parseMoov clk (holding s f) (f @ m) = (None, holding (snd (parseMoov clk s (f @ m))) f)"
    using parseMoov_succeeds [OF assms(3), of clk s] by (simp add: parseMoov_holding)
  have "findMoov clk (holding s f) m
      = (None, (holding (snd (parseMoov clk s (f @ m))) f)
           \<lparr> this_ftyp := None, this_ftypLength := None, this_parseChunk := FindMoof \<rparr>)"
    by (rule findMoov_box [OF assms(2) _ _ pm]) (simp_all add: holding_def)
  then show ?thesis
    by (simp add: transform_def holding_done [OF assms(1)]) (simp add: holding_def)
qed

lemma moov_join_step:
  assumes "starting s" and "is_box moov_tag m" and "indexOf (f @ m) avcC_tag \<noteq> None"
    and "y \<noteq> []"
  shows "transform clk (holding s f) (m @ y) = transform clk (init_done clk s (f @ m)) y"
proof -
  have pm: "parseMoov clk (holding s f) (f @ m) = (None, holding (snd (parseMoov clk s (f @ m))) f)"
    using parseMoov_succeeds [OF assms(3), of clk s] by (simp add: parseMoov_holding)
  have "findMoov clk (holding s f) (m @ y)
      = findMoof clk ((holding (snd (parseMoov clk s (f @ m))) f)
           \<lparr> this_ftyp := None, this_ftypLength := None, this_parseChunk := FindMoof \<rparr>) y"
    by (rule findMoov_join [OF assms(2) _ _ pm assms(4)]) (simp_all add: holding_def)
  moreover have "this_parseChunk (init_done clk s (f @ m)) = FindMoof"
    by (simp add: init_done_def)
  ultimately show ?thesis
    by (simp add: transform_def holding_done [OF assms(1)]) (simp add: holding_def)
qed

lemma publish_all_Cons:
  "publish_all clk s ((a, d) # segs) = publish_all clk (publish clk s (a @ d)) segs"
  by (simp add: publish_all_def)

lemma segments_run:
  "list_all2 (\<lambda>(a, d) (g, ps). good_pieces d ps) segs plans
   \<Longrightarrow> list_all (\<lambda>(a, d). is_box moof_tag a \<and> is_box mdat_tag d) segs
   \<Longrightarrow> ready s
   \<Longrightarrow> writes clk s (concat (map segment_chunks_of (zip segs plans)))
       = (None, publish_all clk s segs)"
proof (induction segs plans arbitrary: s rule: list_all2_induct)
  case Nil
  show ?case by (simp add: publish_all_def)
next
  case (Cons x segs y plans)
  obtain a d where x: "x = (a, d)" by (cases x)
  obtain g ps where y: "y = (g, ps)" by (cases y)
  from Cons.hyps(1) have gp: "good_pieces d ps" by (simp add: x y)
  from Cons.prems(1) have ba: "is_box moof_tag a" and bd: "is_box mdat_tag d"
    and rest: "list_all (\<lambda>(a, d). is_box moof_tag a \<and> is_box mdat_tag d) segs"
    by (simp_all add: x)
  have one: "writes clk s (join g a ps) = (None, publish clk s (a @ d))"
    by (rule segment_chunks [OF Cons.prems(2) ba bd gp])
  have ih: "writes clk (publish clk s (a @ d)) (concat (map segment_chunks_of (zip segs plans)))
      = (None, publish_all clk (publish clk s (a @ d)) segs)"
    by (rule Cons.IH [OF rest ready_publish [OF Cons.prems(2)]])
  have sc: "segment_chunks_of ((a, d), (g, ps)) = join g a ps"
    by (simp add: segment_chunks_of_def)
  show ?case
    by (simp add: x y sc writes_append one ih publish_all_Cons)
qed

lemma segments_head_nonempty:
  assumes "list_all2 (\<lambda>(a, d) (g, ps). good_pieces d ps) segs plans"
    and "list_all (\<lambda>(a, d). is_box moof_tag a \<and> is_box mdat_tag d) segs"
    and "concat (map segment_chunks_of (zip segs plans)) \<noteq> []"
  shows "hd (concat (map segment_chunks_of (zip segs plans))) \<noteq> []"
proof (cases segs)
  case Nil
  with assms(3) show ?thesis by simp
next
  case (Cons x segs')
  with assms(1) obtain y plans' where pl: "plans = y # plans'"
    by (cases plans) auto
  obtain a d where x: "x = (a, d)" by (cases x)
  from assms(2) Cons x have "a \<noteq> []" by (auto dest: box_nonempty)
  from join_nonempty [OF this] show ?thesis
    by (simp add: Cons pl x segment_chunks_of_def)
qed

lemma constructor_starting: "starting (constructor opts cb pipes listeners)"
  using constructor_hls_sized [of opts cb pipes listeners]
  by (simp add: starting_def) (simp add: constructor_def fresh_def Let_def split: option.split)

lemma rechunking_run:
  assumes "valid_stream f m segs" and "good_plan segs pl1" and "good_plan segs pl2"
    and "starting s"
  shows "writes clk s (chunking f m segs pl1) = writes clk s (chunking f m segs pl2)
    \<and> writes clk s (chunking f m segs pl1)
        = (None, publish_all clk (init_done clk s (f @ m)) segs)
    \<and> concat (chunking f m segs pl1) = stream_bytes f m segs
    \<and> concat (chunking f m segs pl2) = stream_bytes f m segs"
proof -
  have run: "writes clk s (chunking f m segs pl)
        = (None, publish_all clk (init_done clk s (f @ m)) segs)
      \<and> concat (chunking f m segs pl) = stream_bytes f m segs"
    if gp: "good_plan segs pl" for pl
  proof -
    obtain gf gm plans where pl: "pl = (gf, gm, plans)" by (cases pl)
    let ?cs = "concat (map segment_chunks_of (zip segs plans))"
    from assms(1) have bf: "is_box ftyp_tag f" and bm: "is_box moov_tag m"
      and av: "indexOf (f @ m) avcC_tag \<noteq> None"
      and bs: "list_all (\<lambda>(a, d). is_box moof_tag a \<and> is_box mdat_tag d) segs"
      by (simp_all add: valid_stream_def)
    from gp have la: "list_all2 (\<lambda>(a, d) (g, ps). good_pieces d ps) segs plans"
      by (simp add: good_plan_def pl)
    have r3: "writes clk (init_done clk s (f @ m)) ?cs
        = (None, publish_all clk (init_done clk s (f @ m)) segs)"
      by (rule segments_run [OF la bs ready_init_done [OF assms(4)]])
    have r2: "writes clk (holding s f) (join gm m ?cs) = writes clk (init_done clk s (f @ m)) ?cs"
      by (rule join_writes [OF moov_step [OF assms(4) bm av]
            moov_join_step [OF assms(4) bm av] segments_head_nonempty [OF la bs]])
    have r1: "writes clk s (join gf f (join gm m ?cs)) = writes clk (holding s f) (join gm m ?cs)"
      using join_nonempty [OF box_nonempty [OF bm], of gm ?cs]
      by (intro join_writes [OF ftyp_step [OF assms(4) bf] ftyp_join_step [OF assms(4) bf]]) simp_all
    have cat: "concat ?cs = concat (map (\<lambda>(a, d). a @ d) segs)"
      using la
    proof (induction segs plans rule: list_all2_induct)
      case Nil
      show ?case by simp
    next
      case (Cons x segs y plans)
      then show ?case
        by (cases x, cases y) (simp add: segment_chunks_of_def concat_join good_pieces_def)
    qed
    show ?thesis
      by (simp add: chunking_def pl r1 r2 r3 concat_join cat stream_bytes_def)
  qed
  from run [OF assms(2)] run [OF assms(3)] show ?thesis by simp
qed

lemma publish_fields:
  assumes "hls_sized s"
  shows "this_trace (publish clk s seg) = this_trace s @ notifications s seg"
    and "this_initialization (publish clk s seg) = this_initialization s"
    and "notifications (publish clk s seg) = notifications s"
proof -
  have n: "notifications (snd (setSegment clk s seg)) = notifications s"
    by (rule notifications_cong)
      (simp_all add: setSegment_def notify_eq buffer_push_eq Let_def
        split: option.split list.split prod.split)
  show "this_trace (publish clk s seg) = this_trace s @ notifications s seg"
  proof (cases "this_hlsList s")
    case None
    show ?thesis unfolding publish_def setSegment_no_hls [OF None] by simp
  next
    case (Some l)
    with assms obtain k where q: "this_sequence s = Some k" and pos: "0 < this_hlsListSize s"
      by (auto simp: hls_sized_def)
    show ?thesis unfolding publish_def setSegment_hls [OF Some q pos] by simp
  qed
  show "this_initialization (publish clk s seg) = this_initialization s"
    by (simp add: publish_def setSegment_def notify_eq buffer_push_eq Let_def
        split: option.split list.split prod.split)
  show "notifications (publish clk s seg) = notifications s"
    unfolding publish_def by (rule n)
qed

lemma publish_all_fields:
  "ready s \<Longrightarrow>
     this_trace (publish_all clk s segs)
       = this_trace s @ concat (map (\<lambda>(a, d). notifications s (a @ d)) segs)
     \<and> this_initialization (publish_all clk s segs) = this_initialization s"
proof (induction segs arbitrary: s)
  case Nil
  show ?case by (simp add: publish_all_def)
next
  case (Cons x segs)
  obtain a d where x: "x = (a, d)" by (cases x)
  from Cons.prems have ok: "hls_sized s" by (simp add: ready_def)
  note ih = Cons.IH [OF ready_publish [OF Cons.prems, where clk = clk and seg = "a @ d"]]
  show ?case
    by (simp add: x publish_all_Cons ih publish_fields [OF ok])
qed

lemma init_done_fields:
  assumes "indexOf blob avcC_tag \<noteq> None"
  shows "this_trace (init_done clk s blob) = this_trace s @ [Initialized]"
    and "this_initialization (init_done clk s blob) = Some blob"
    and "notifications (init_done clk s blob) = notifications s"
proof -
  obtain s1 where pm: "parseMoov clk s blob = (None, s1)"
    using parseMoov_succeeds [OF assms, of clk s] by (cases "parseMoov clk s blob") auto
  note eq = parseMoov_ok_eq [OF pm]
  have s1: "snd (parseMoov clk s blob) = s1" using pm by simp
  show "this_trace (init_done clk s blob) = this_trace s @ [Initialized]"
    unfolding init_done_def s1 by (subst eq) simp
  show "this_initialization (init_done clk s blob) = Some blob"
    unfolding init_done_def s1 by (subst eq) simp
  show "notifications (init_done clk s blob) = notifications s"
    unfolding init_done_def s1 by (rule notifications_cong) (subst eq, simp)+
qed

text \<open>
  C2, as the code has it. For every valid stream and every two chunkings of it whose
  boundaries lie only at the end of the \<open>ftyp\<close> box, of the \<open>moov\<close> box or of a \<open>moof\<close> box,
  inside an \<open>mdat\<close> box at least eight bytes after its start, and at the end of every
  \<open>mdat\<close> box, a fresh parser fed either chunking ends in the same state with no error:
  the init blob is \<open>ftyp\<close> and \<open>moov\<close>, and the trace is the \<open>initialized\<close> event followed by the
  notifications of every segment \<open>moof\<close> and \<open>mdat\<close>, in stream order.
\<close>

theorem rechunking_invariance:
  assumes "valid_stream f m segs" and "good_plan segs pl1" and "good_plan segs pl2"
  shows "concat (chunking f m segs pl1) = stream_bytes f m segs
    \<and> concat (chunking f m segs pl2) = stream_bytes f m segs
    \<and> writes clk (constructor opts cb pipes listeners) (chunking f m segs pl1)
        = writes clk (constructor opts cb pipes listeners) (chunking f m segs pl2)
    \<and> fst (writes clk (constructor opts cb pipes listeners) (chunking f m segs pl1)) = None
    \<and> get_initialization (snd (writes clk (constructor opts cb pipes listeners)
          (chunking f m segs pl1))) = Some (f @ m)
    \<and> this_trace (snd (writes clk (constructor opts cb pipes listeners)
          (chunking f m segs pl1)))
        = Initialized # concat (map (\<lambda>(a, d).
            notifications (constructor opts cb pipes listeners) (a @ d)) segs)"
proof -
  let ?s = "constructor opts cb pipes listeners"
  have st: "starting ?s" by (rule constructor_starting)
  note run = rechunking_run [OF assms st, of clk]
  from assms(1) have av: "indexOf (f @ m) avcC_tag \<noteq> None" by (simp add: valid_stream_def)
  note i = init_done_fields [OF av, where clk = clk and s = ?s]
  note p = publish_all_fields [OF ready_init_done [OF st, where clk = clk and blob = "f @ m"],
      where clk = clk and segs = segs]
  have t0: "this_trace ?s = []" by (simp add: constructor_def fresh_def Let_def split: option.split)
  from run have w: "writes clk ?s (chunking f m segs pl1)
      = (None, publish_all clk (init_done clk ?s (f @ m)) segs)" by blast
  from run have e: "writes clk ?s (chunking f m segs pl1) = writes clk ?s (chunking f m segs pl2)"
    and c1: "concat (chunking f m segs pl1) = stream_bytes f m segs"
    and c2: "concat (chunking f m segs pl2) = stream_bytes f m segs"
    by blast+
  have a: "fst (writes clk ?s (chunking f m segs pl1)) = None"
    and b: "get_initialization (snd (writes clk ?s (chunking f m segs pl1))) = Some (f @ m)"
    and c: "this_trace (snd (writes clk ?s (chunking f m segs pl1)))
        = Initialized # concat (map (\<lambda>(a, d). notifications ?s (a @ d)) segs)"
    unfolding w using p by (simp_all add: i t0 get_initialization_def)
  from c1 c2 e a b c show ?thesis by blast
qed

text \<open>
  C2, witness: the example stream as one chunk and as five chunks, the \<open>mdat\<close> box cut after
  nine bytes.
\<close>

theorem rechunking_invariance_witness:
  "valid_stream ex_ftyp ex_moov ex_segments
   \<and> good_plan ex_segments one_chunk_plan \<and> good_plan ex_segments five_chunk_plan
   \<and> chunking ex_ftyp ex_moov ex_segments one_chunk_plan
       = [ex_ftyp @ ex_moov @ ex_moof @ ex_mdat]
   \<and> chunking ex_ftyp ex_moov ex_segments five_chunk_plan
       = [ex_ftyp, ex_moov, ex_moof, take 9 ex_mdat, drop 9 ex_mdat]
   \<and> writes ex_clock ex_parser [ex_ftyp @ ex_moov @ ex_moof @ ex_mdat]
       = writes ex_clock ex_parser [ex_ftyp, ex_moov, ex_moof, take 9 ex_mdat, drop 9 ex_mdat]
   \<and> fst (writes ex_clock ex_parser [ex_ftyp @ ex_moov @ ex_moof @ ex_mdat]) = None
   \<and> get_initialization (snd (writes ex_clock ex_parser [ex_ftyp @ ex_moov @ ex_moof @ ex_mdat]))
       = Some (ex_ftyp @ ex_moov)"
proof -
  have v: "valid_stream ex_ftyp ex_moov ex_segments"
    by (simp add: valid_stream_def is_box_def buf_defs tag_defs ex_defs ex_segments_def)
  have g1: "good_plan ex_segments one_chunk_plan"
    by (simp add: good_plan_def good_pieces_def ex_segments_def one_chunk_plan_def ex_mdat_def)
  have g2: "good_plan ex_segments five_chunk_plan"
    by (simp add: good_plan_def good_pieces_def ex_segments_def five_chunk_plan_def ex_mdat_def)
  have c1: "chunking ex_ftyp ex_moov ex_segments one_chunk_plan
       = [ex_ftyp @ ex_moov @ ex_moof @ ex_mdat]"
    by (simp add: chunking_def segment_chunks_of_def ex_segments_def one_chunk_plan_def)
  have c2: "chunking ex_ftyp ex_moov ex_segments five_chunk_plan
       = [ex_ftyp, ex_moov, ex_moof, take 9 ex_mdat, drop 9 ex_mdat]"
    by (simp add: chunking_def segment_chunks_of_def ex_segments_def five_chunk_plan_def)
  note r = rechunking_invariance [OF v g1 g2, where clk = ex_clock
      and opts = "Some ex_hls_options" and cb = False and pipes = 0 and listeners = 1,
      folded ex_parser_def, unfolded c1 c2]
  from r v g1 g2 c1 c2 show ?thesis by blast
qed

text \<open>
  C2, counterexample: the example stream as one chunk, and the same bytes cut after the
  fourth: the first gives the init blob and no error, the second throws at its first chunk.
\<close>

theorem rechunking_counterexample:
  "valid_stream ex_ftyp ex_moov ex_segments
   \<and> concat [ex_ftyp @ ex_moov @ ex_moof @ ex_mdat] = stream_bytes ex_ftyp ex_moov ex_segments
   \<and> concat [take 4 ex_ftyp, drop 4 ex_ftyp @ ex_moov @ ex_moof @ ex_mdat]
       = stream_bytes ex_ftyp ex_moov ex_segments
   \<and> fst (writes ex_clock ex_parser [ex_ftyp @ ex_moov @ ex_moof @ ex_mdat]) = None
   \<and> get_initialization (snd (writes ex_clock ex_parser [ex_ftyp @ ex_moov @ ex_moof @ ex_mdat]))
       = Some (ex_ftyp @ ex_moov)
   \<and> fst (writes ex_clock ex_parser [take 4 ex_ftyp, drop 4 ex_ftyp @ ex_moov @ ex_moof @ ex_mdat])
       = Some CannotFindFtyp
   \<and> get_initialization (snd (writes ex_clock ex_parser
         [take 4 ex_ftyp, drop 4 ex_ftyp @ ex_moov @ ex_moof @ ex_mdat])) = None"
proof -
  have v: "valid_stream ex_ftyp ex_moov ex_segments"
    by (simp add: valid_stream_def is_box_def buf_defs tag_defs ex_defs ex_segments_def)
  have a: "fst (writes ex_clock ex_parser [ex_ftyp @ ex_moov @ ex_moof @ ex_mdat]) = None"
    and b: "get_initialization (snd (writes ex_clock ex_parser
        [ex_ftyp @ ex_moov @ ex_moof @ ex_mdat])) = Some (ex_ftyp @ ex_moov)"
    by (simp_all add: run_defs ex_defs get_initialization_def)
  have c: "fst (writes ex_clock ex_parser
        [take 4 ex_ftyp, drop 4 ex_ftyp @ ex_moov @ ex_moof @ ex_mdat]) = Some CannotFindFtyp"
    and d: "get_initialization (snd (writes ex_clock ex_parser
         [take 4 ex_ftyp, drop 4 ex_ftyp @ ex_moov @ ex_moof @ ex_mdat])) = None"
    by (simp_all add: run_defs ex_defs get_initialization_def)
  from v a b c d show ?thesis
    by (simp add: stream_bytes_def ex_segments_def)
qed

subsection \<open>The MIME string\<close>

text \<open>
  C6. The init parse fails with the missing-codec error exactly when the blob has no
  occurrence of \<open>avcC\<close>. Otherwise it succeeds and the MIME string is
  \<open>video/mp4; codecs="avc1.\<close>, the upper-case hex of the bytes at offsets 5, 6 and 7 after
  the first occurrence of \<open>avcC\<close> (as many of the three as the blob has), then
  \<open>, mp4a.40.2\<close> exactly when \<open>mp4a\<close> occurs in the blob, then the closing quote.
\<close>

theorem parseMoov_mime:
  "(fst (parseMoov clk s blob), this_mime (snd (parseMoov clk s blob))) =
     (if \<exists>i. take 4 (drop i blob) = avcC_tag
      then (None,
            Some (''video/mp4; codecs='' @ [dquote] @ ''avc1.''
                  @ hex_upper (slice_range blob ((LEAST i. take 4 (drop i blob) = avcC_tag) + 5)
                                 ((LEAST i. take 4 (drop i blob) = avcC_tag) + 8))
                  @ (if \<exists>i. take 4 (drop i blob) = mp4a_tag then '', mp4a.40.2'' else [])
                  @ [dquote]))
      else (Some NoCodecInformation, this_mime s))"
proof -
  have la: "length avcC_tag = 4" and na: "avcC_tag \<noteq> []"
    by (simp_all add: avcC_tag_def)
  have lm: "length mp4a_tag = 4" and nm: "mp4a_tag \<noteq> []"
    by (simp_all add: mp4a_tag_def)
  note a = indexOf_eq_Least [OF na, of blob, unfolded la]
  note m = indexOf_eq_Least [OF nm, of blob, unfolded lm]
  show ?thesis
  proof (cases "\<exists>i. take 4 (drop i blob) = avcC_tag")
    case True
    then show ?thesis
      by (simp add: parseMoov_def a m Let_def add.assoc split: option.split)
  next
    case False
    then show ?thesis
      by (simp add: parseMoov_def a Let_def)
  qed
qed

text \<open>The example session's init fragment has the \<open>avcC\<close> bytes \<open>4D 40 1F\<close> and no \<open>mp4a\<close>.\<close>

lemma ex_session_mime:
  "get_mime ex_session
     = Some (''video/mp4; codecs='' @ [CHR 0x22] @ ''avc1.4D401F'' @ [CHR 0x22])"
  by (simp add: feed_defs run_defs ex_defs get_mime_def dquote_def)

end
